theory Spec2Isabelle
  imports Complex_Main "HOL-Library.Char_ord" "HOL-Library.List_Lexorder"
    "HOL-Library.Product_Lexorder"
begin

section \<open>Strings\<close>

text \<open>
  A Python \<open>str\<close> is modelled as a \<open>string\<close>; a \<open>char\<close> stands for the code point of
  the same number, so the model covers playlist texts whose code points are below 256.
  On that range the line boundaries of \<open>str.splitlines\<close>, the white space of
  \<open>str.strip\<close> and the digits of the regular expression class \<open>\d\<close> are the ones
  listed here.
\<close>

definition is_linebreak :: "char \<Rightarrow> bool" where
  "is_linebreak c =
     (c \<in> set [CHR 0x0A, CHR 0x0B, CHR 0x0C, CHR 0x0D, CHR 0x1C, CHR 0x1D, CHR 0x1E, CHR 0x85])"

definition is_space :: "char \<Rightarrow> bool" where
  "is_space c =
     (c \<in> set [CHR 0x09, CHR 0x0A, CHR 0x0B, CHR 0x0C, CHR 0x0D, CHR 0x1C, CHR 0x1D,
                CHR 0x1E, CHR 0x1F, CHR 0x20, CHR 0x85, CHR 0xA0])"

definition is_digit :: "char \<Rightarrow> bool" where
  "is_digit c = (CHR ''0'' \<le> c \<and> c \<le> CHR ''9'')"

text \<open>\<open>str.splitlines()\<close>: \<open>cur\<close> is the line being read; \<open>\r\n\<close> is one boundary, and a
  final boundary opens no empty last line.\<close>

fun splitlines_from :: "string \<Rightarrow> string \<Rightarrow> string list" where
  "splitlines_from cur [] = (if cur = [] then [] else [cur])"
| "splitlines_from cur (c # cs) =
     (if c = CHR 0x0D \<and> cs \<noteq> [] \<and> hd cs = CHR 0x0A then cur # splitlines_from [] (tl cs)
      else if is_linebreak c then cur # splitlines_from [] cs
      else splitlines_from (cur @ [c]) cs)"

definition splitlines :: "string \<Rightarrow> string list" where
  "splitlines s = splitlines_from [] s"

definition strip :: "string \<Rightarrow> string" where
  "strip s = rev (dropWhile is_space (rev (dropWhile is_space s)))"

definition startswith :: "string \<Rightarrow> string \<Rightarrow> bool" where
  "startswith s p = (take (length p) s = p)"

text \<open>\<open>sub in s\<close> on strings.\<close>

fun contains :: "string \<Rightarrow> string \<Rightarrow> bool" where
  "contains sub [] = (sub = [])"
| "contains sub (c # cs) = (startswith (c # cs) sub \<or> contains sub cs)"

section \<open>Exceptions\<close>

datatype error =
    ValueError string
  | RuntimeError string
  | HTTPError int
  | URLError
  | OtherException

section \<open>Playlist parsing\<close>

text \<open>\<open>[line.strip() for line in content.splitlines() if line.strip()]\<close>\<close>

definition stripped_lines :: "string \<Rightarrow> string list" where
  "stripped_lines content = filter (\<lambda>l. l \<noteq> []) (map strip (splitlines content))"

definition is_master :: "string list \<Rightarrow> bool" where
  "is_master lines = list_ex (\<lambda>line. startswith line ''#EXT-X-STREAM-INF'') lines"

text \<open>The loop of \<open>parse_m3u8\<close>; \<open>urljoin\<close> of the standard library is a parameter.\<close>

fun parse_m3u8_loop ::
  "(string \<Rightarrow> string \<Rightarrow> string) \<Rightarrow> string \<Rightarrow> string list \<Rightarrow> string list \<Rightarrow> string list" where
  "parse_m3u8_loop urljoin base_url [] segments = segments"
| "parse_m3u8_loop urljoin base_url (line # rest) segments =
     (if startswith line ''#'' then parse_m3u8_loop urljoin base_url rest segments
      else parse_m3u8_loop urljoin base_url rest (segments @ [urljoin base_url line]))"

definition master_provided :: error where
  "master_provided = ValueError
     ''Master playlist provided; use resolve_segments_from_m3u8() that preserves headers''"

definition no_segments_found :: error where
  "no_segments_found = ValueError ''No segments found in playlist''"

definition parse_m3u8 ::
  "(string \<Rightarrow> string \<Rightarrow> string) \<Rightarrow> string \<Rightarrow> string \<Rightarrow> error + string list" where
  "parse_m3u8 urljoin content base_url =
     (let lines = stripped_lines content in
      if is_master lines then Inl master_provided
      else
        let segments = parse_m3u8_loop urljoin base_url lines [] in
        if segments = [] then Inl no_segments_found else Inr segments)"

text \<open>\<open>playlist_has_encryption\<close>: the first line that qualifies returns \<open>True\<close>.\<close>

fun has_encryption_loop :: "string list \<Rightarrow> bool" where
  "has_encryption_loop [] = False"
| "has_encryption_loop (line # rest) =
     (if startswith (strip line) ''#EXT-X-KEY'' \<and> \<not> contains ''METHOD=NONE'' line then True
      else has_encryption_loop rest)"

definition playlist_has_encryption :: "string \<Rightarrow> bool" where
  "playlist_has_encryption m3u8_text = has_encryption_loop (splitlines m3u8_text)"

section \<open>Regular expressions and \<open>int()\<close>\<close>

text \<open>\<open>match_run lit cls s\<close> matches the literal \<open>lit\<close> followed by a greedy, non-empty
  run of the class \<open>cls\<close> at the start of \<open>s\<close>; it gives the run and the text after it.
  \<open>re_search\<close> tries every start position from the left, as \<open>re.search\<close> does.\<close>

definition match_run :: "string \<Rightarrow> (char \<Rightarrow> bool) \<Rightarrow> string \<Rightarrow> (string \<times> string) option" where
  "match_run lit cls s =
     (let tail = drop (length lit) s in
      if startswith s lit \<and> takeWhile cls tail \<noteq> []
      then Some (takeWhile cls tail, dropWhile cls tail) else None)"

fun re_search :: "(string \<Rightarrow> 'a option) \<Rightarrow> string \<Rightarrow> 'a option" where
  "re_search m [] = m []"
| "re_search m (c # cs) = (case m (c # cs) of Some g \<Rightarrow> Some g | None \<Rightarrow> re_search m cs)"

definition backslash :: char where
  "backslash = CHR 0x5C"

text \<open>Group 1 of \<open>r"BANDWIDTH=(\d+)"\<close>, the pattern of \<open>resolve_segments_from_m3u8\<close>.\<close>

definition bandwidth_digits :: "string \<Rightarrow> string option" where
  "bandwidth_digits s = map_option fst (match_run ''BANDWIDTH='' is_digit s)"

text \<open>Group 1 of \<open>r"BANDWIDTH=(\\d+)"\<close>, the pattern of \<open>parse_master_variants_only\<close> and of
  \<open>detect_encryption_in_playlist_chain\<close>: in a raw string the doubled backslash is the
  regular expression for one literal backslash, and \<open>d+\<close> is a run of the letter d.\<close>

definition bandwidth_escaped :: "string \<Rightarrow> string option" where
  "bandwidth_escaped s =
     map_option (\<lambda>(run, _). backslash # run)
       (match_run (''BANDWIDTH='' @ [backslash]) (\<lambda>c. c = CHR ''d'') s)"

text \<open>Group 2 of \<open>r"RESOLUTION=(\\d+)x(\\d+)"\<close>.\<close>

definition resolution_escaped :: "string \<Rightarrow> string option" where
  "resolution_escaped s =
     (case match_run (''RESOLUTION='' @ [backslash]) (\<lambda>c. c = CHR ''d'') s of
        None \<Rightarrow> None
      | Some (_, tail) \<Rightarrow>
          map_option (\<lambda>(run, _). backslash # run)
            (match_run (''x'' @ [backslash]) (\<lambda>c. c = CHR ''d'') tail))"

text \<open>\<open>int(s)\<close> in base 10: surrounding white space, one optional sign, digits with single
  underscores between them. A well-formed numeral of more than 4300 digits is refused
  (the default of \<open>sys.set_int_max_str_digits\<close>, Python 3.11 and later); both refusals
  are a \<open>ValueError\<close>.\<close>

fun digit_groups :: "string \<Rightarrow> bool" where
  "digit_groups [] = False"
| "digit_groups [c] = is_digit c"
| "digit_groups (c # d # r) =
     (is_digit c \<and> (if d = CHR ''_'' then digit_groups r else digit_groups (d # r)))"

definition digit_value :: "char \<Rightarrow> int" where
  "digit_value c = int (of_char c) - 48"

definition decimal_value :: "string \<Rightarrow> int" where
  "decimal_value s = foldl (\<lambda>acc c. 10 * acc + digit_value c) 0 (filter is_digit s)"

definition int_max_str_digits :: nat where
  "int_max_str_digits = 4300"

definition py_int :: "string \<Rightarrow> error + int" where
  "py_int s =
     (let t = strip s;
          negative = (t \<noteq> [] \<and> hd t = CHR ''-'');
          body = (if t \<noteq> [] \<and> (hd t = CHR ''-'' \<or> hd t = CHR ''+'') then tl t else t)
      in if \<not> digit_groups body
         then Inl (ValueError ''invalid literal for int() with base 10'')
         else if int_max_str_digits < length (filter is_digit body)
         then Inl (ValueError ''Exceeds the limit (4300 digits) for integer string conversion'')
         else Inr (if negative then - decimal_value body else decimal_value body))"

section \<open>Master playlists\<close>

text \<open>
  The loop that collects the variants of a master playlist stands three times in the
  source, in \<open>parse_master_variants_only\<close>, \<open>resolve_segments_from_m3u8\<close> and
  \<open>detect_encryption_in_playlist_chain\<close>; the copies differ in the attributes they read
  from the stream-info line (\<open>attrs\<close>, which may raise) and in the tuple they append
  (\<open>mk\<close>). \<open>lines\<close> is \<open>lines[i:]\<close> and \<open>variants\<close> the list built so far. After a
  stream-info line the index moves to the next line that is no comment (\<open>i = j\<close>); when
  there is none the loop ends.
\<close>

function variants_loop ::
  "(string \<Rightarrow> error + 'a) \<Rightarrow> ('a \<Rightarrow> string \<Rightarrow> 'v) \<Rightarrow> (string \<Rightarrow> string \<Rightarrow> string) \<Rightarrow> string
     \<Rightarrow> string list \<Rightarrow> 'v list \<Rightarrow> error + 'v list" where
  "variants_loop attrs mk urljoin base_url [] variants = Inr variants"
| "variants_loop attrs mk urljoin base_url (line # rest) variants =
     (if startswith line ''#EXT-X-STREAM-INF'' then
        (case attrs line of
           Inl e \<Rightarrow> Inl e
         | Inr a \<Rightarrow>
            (case dropWhile (\<lambda>l. startswith l ''#'') rest of
               [] \<Rightarrow> Inr variants
             | u # after \<Rightarrow>
                 variants_loop attrs mk urljoin base_url (u # after)
                   (variants @ [mk a (urljoin base_url u)])))
      else variants_loop attrs mk urljoin base_url rest variants)"
  by pat_completeness auto
termination
proof (relation "measure (\<lambda>(attrs, mk, urljoin, base_url, lines, variants). length lines)")
  show "wf (measure (\<lambda>(attrs, mk, urljoin, base_url, lines, variants). length lines))"
    by simp
next
  fix attrs :: "string \<Rightarrow> error + 'a" and mk :: "'a \<Rightarrow> string \<Rightarrow> 'v"
    and urljoin :: "string \<Rightarrow> string \<Rightarrow> string" and base_url line :: string
    and rest :: "string list" and variants :: "'v list" and a u after
  assume "dropWhile (\<lambda>l. startswith l ''#'') rest = u # after"
  then have "length (u # after) \<le> length rest"
    using length_dropWhile_le [of "\<lambda>l. startswith l ''#''" rest] by simp
  then show "((attrs, mk, urljoin, base_url, u # after, variants @ [mk a (urljoin base_url u)]),
              (attrs, mk, urljoin, base_url, line # rest, variants))
             \<in> measure (\<lambda>(attrs, mk, urljoin, base_url, lines, variants). length lines)"
    by simp
next
  fix attrs :: "string \<Rightarrow> error + 'a" and mk :: "'a \<Rightarrow> string \<Rightarrow> 'v"
    and urljoin :: "string \<Rightarrow> string \<Rightarrow> string" and base_url line :: string
    and rest :: "string list" and variants :: "'v list"
  show "((attrs, mk, urljoin, base_url, rest, variants),
         (attrs, mk, urljoin, base_url, line # rest, variants))
        \<in> measure (\<lambda>(attrs, mk, urljoin, base_url, lines, variants). length lines)"
    by simp
qed

text \<open>The attributes each copy reads. \<open>int(...)\<close> is applied to group 1 (group 2 for the
  height) when the pattern matched; the default is 0 (\<open>None\<close> for the height).\<close>

definition bandwidth_attr :: "string \<Rightarrow> error + int" where
  "bandwidth_attr line =
     (case re_search bandwidth_digits line of Some g \<Rightarrow> py_int g | None \<Rightarrow> Inr 0)"

definition bandwidth_attr_escaped :: "string \<Rightarrow> error + int" where
  "bandwidth_attr_escaped line =
     (case re_search bandwidth_escaped line of Some g \<Rightarrow> py_int g | None \<Rightarrow> Inr 0)"

definition height_attr_escaped :: "string \<Rightarrow> error + int option" where
  "height_attr_escaped line =
     (case re_search resolution_escaped line of
        Some g \<Rightarrow> (case py_int g of Inl e \<Rightarrow> Inl e | Inr h \<Rightarrow> Inr (Some h))
      | None \<Rightarrow> Inr None)"

definition parse_master_variants_only ::
  "(string \<Rightarrow> string \<Rightarrow> string) \<Rightarrow> string \<Rightarrow> string \<Rightarrow> error + (int \<times> int option \<times> string) list" where
  "parse_master_variants_only urljoin content base_url =
     variants_loop
       (\<lambda>line. case bandwidth_attr_escaped line of
                  Inl e \<Rightarrow> Inl e
                | Inr bandwidth \<Rightarrow>
                    (case height_attr_escaped line of
                       Inl e \<Rightarrow> Inl e
                     | Inr height \<Rightarrow> Inr (bandwidth, height)))
       (\<lambda>(bandwidth, height) uri. (bandwidth, height, uri))
       urljoin base_url (stripped_lines content) []"

text \<open>Python's \<open>max(xs, key=key)\<close>: the first of the greatest elements; an empty argument
  raises.\<close>

fun max_from :: "('a \<Rightarrow> 'k::linorder) \<Rightarrow> 'a \<Rightarrow> 'a list \<Rightarrow> 'a" where
  "max_from key best [] = best"
| "max_from key best (x # xs) = max_from key (if key best < key x then x else best) xs"

definition py_max :: "('a \<Rightarrow> 'k::linorder) \<Rightarrow> 'a list \<Rightarrow> error + 'a" where
  "py_max key xs =
     (case xs of
        [] \<Rightarrow> Inl (ValueError ''max() arg is an empty sequence'')
      | x # rest \<Rightarrow> Inr (max_from key x rest))"

text \<open>\<open>v[1] or 0\<close>\<close>

definition or_zero :: "int option \<Rightarrow> int" where
  "or_zero h = (case h of None \<Rightarrow> 0 | Some n \<Rightarrow> n)"

definition choose_variant_best :: "(int \<times> int option \<times> string) list \<Rightarrow> error + string" where
  "choose_variant_best variants =
     (case py_max (\<lambda>v. (fst v, or_zero (fst (snd v)))) variants of
        Inl e \<Rightarrow> Inl e
      | Inr v \<Rightarrow> Inr (snd (snd v)))"

section \<open>Resolving the playlist chain\<close>

text \<open>
  The network is a parameter: \<open>http_get n url headers timeout\<close> is what the request
  number \<open>n\<close> (from 0) of the function at hand gets, the decoded body or the exception
  raised. The functions return the URLs they requested, in order, beside their result.
\<close>

type_synonym 'h http = "nat \<Rightarrow> string \<Rightarrow> 'h \<Rightarrow> int \<Rightarrow> error + string"

definition no_variants_found :: error where
  "no_variants_found = ValueError ''No HLS variants found in master playlist''"

text \<open>\<open>max(variants, key=lambda x: x[0])[1]\<close> behind the guard \<open>if not variants\<close>.\<close>

definition best_by_bandwidth :: "(int \<times> string) list \<Rightarrow> error + string" where
  "best_by_bandwidth variants =
     (if variants = [] then Inl no_variants_found
      else case py_max fst variants of Inl e \<Rightarrow> Inl e | Inr v \<Rightarrow> Inr (snd v))"

definition resolve_segments_from_m3u8 ::
  "(string \<Rightarrow> string \<Rightarrow> string) \<Rightarrow> 'h http \<Rightarrow> string \<Rightarrow> 'h \<Rightarrow> int
     \<Rightarrow> string list \<times> (error + string list)" where
  "resolve_segments_from_m3u8 urljoin http_get m3u8_url headers timeout =
     (case http_get 0 m3u8_url headers timeout of
        Inl e \<Rightarrow> ([m3u8_url], Inl e)
      | Inr top_text \<Rightarrow>
          let lines = stripped_lines top_text in
          if is_master lines then
            (case variants_loop bandwidth_attr Pair urljoin m3u8_url lines [] of
               Inl e \<Rightarrow> ([m3u8_url], Inl e)
             | Inr variants \<Rightarrow>
                 (case best_by_bandwidth variants of
                    Inl e \<Rightarrow> ([m3u8_url], Inl e)
                  | Inr best_uri \<Rightarrow>
                      (case http_get 1 best_uri headers timeout of
                         Inl e \<Rightarrow> ([m3u8_url, best_uri], Inl e)
                       | Inr media \<Rightarrow>
                           ([m3u8_url, best_uri], parse_m3u8 urljoin media best_uri))))
          else ([m3u8_url], parse_m3u8 urljoin top_text m3u8_url))"

text \<open>In \<open>detect_encryption_in_playlist_chain\<close> a master playlist without variants gives
  \<open>False\<close>.\<close>

definition detect_encryption_in_playlist_chain ::
  "(string \<Rightarrow> string \<Rightarrow> string) \<Rightarrow> 'h http \<Rightarrow> string \<Rightarrow> 'h \<Rightarrow> int
     \<Rightarrow> string list \<times> (error + bool)" where
  "detect_encryption_in_playlist_chain urljoin http_get m3u8_url headers timeout =
     (case http_get 0 m3u8_url headers timeout of
        Inl e \<Rightarrow> ([m3u8_url], Inl e)
      | Inr top_text \<Rightarrow>
          let lines = stripped_lines top_text in
          if is_master lines then
            (case variants_loop bandwidth_attr_escaped Pair urljoin m3u8_url lines [] of
               Inl e \<Rightarrow> ([m3u8_url], Inl e)
             | Inr variants \<Rightarrow>
                 if variants = [] then ([m3u8_url], Inr False)
                 else
                   (case py_max fst variants of
                      Inl e \<Rightarrow> ([m3u8_url], Inl e)
                    | Inr v \<Rightarrow>
                        (case http_get 1 (snd v) headers timeout of
                           Inl e \<Rightarrow> ([m3u8_url, snd v], Inl e)
                         | Inr media \<Rightarrow>
                             ([m3u8_url, snd v], Inr (playlist_has_encryption media)))))
          else ([m3u8_url], Inr (playlist_has_encryption top_text)))"

section \<open>Fetching one segment\<close>

text \<open>
  \<open>try_download\<close>: \<open>attempts\<close> is what is left of \<open>range(retries + 1)\<close>; \<open>slept\<close> collects
  the arguments of \<open>time.sleep\<close>. The result is the returned triple and the delays slept.
  Here \<open>http_get n\<close> answers attempt \<open>n\<close>. The delays are real numbers, and
  \<open>time.sleep\<close> is taken to return: the source calls \<open>try_download\<close> with the backoff 0.5
  or 0, never with a negative one, which \<open>time.sleep\<close> would refuse.
\<close>

fun try_download_loop ::
  "'h http \<Rightarrow> string \<Rightarrow> 'h \<Rightarrow> int \<Rightarrow> int \<Rightarrow> real \<Rightarrow> nat list \<Rightarrow> real list
     \<Rightarrow> (bool \<times> string option \<times> int option) \<times> real list" where
  "try_download_loop http_get url headers timeout retries backoff [] slept =
     ((False, None, None), slept)"
| "try_download_loop http_get url headers timeout retries backoff (attempt # rest) slept =
     (case http_get attempt url headers timeout of
        Inr data \<Rightarrow> ((True, Some data, None), slept)
      | Inl e \<Rightarrow>
          (case e of
             HTTPError code \<Rightarrow>
               if code = 403 \<or> code = 404 then ((False, None, Some code), slept)
               else if retries \<le> int attempt then ((False, None, Some code), slept)
               else try_download_loop http_get url headers timeout retries backoff rest
                      (slept @ [backoff * 2 ^ attempt])
           | _ \<Rightarrow>
               if retries \<le> int attempt then ((False, None, None), slept)
               else try_download_loop http_get url headers timeout retries backoff rest
                      (slept @ [backoff * 2 ^ attempt])))"

definition try_download ::
  "'h http \<Rightarrow> string \<Rightarrow> 'h \<Rightarrow> int \<Rightarrow> int \<Rightarrow> real
     \<Rightarrow> (bool \<times> string option \<times> int option) \<times> real list" where
  "try_download http_get url headers timeout retries backoff =
     try_download_loop http_get url headers timeout retries backoff
       [0..<nat (retries + 1)] []"

section \<open>Segment files\<close>

text \<open>\<open>f"{index:06d}.ts"\<close>: the decimal numeral, padded with zeros to six characters.\<close>

definition digit_char :: "nat \<Rightarrow> char" where
  "digit_char d = char_of (48 + d)"

fun decimal :: "nat \<Rightarrow> string" where
  "decimal n = (if n < 10 then [digit_char n] else decimal (n div 10) @ [digit_char (n mod 10)])"

declare decimal.simps [simp del]

definition zero_pad :: "nat \<Rightarrow> string \<Rightarrow> string" where
  "zero_pad width s = replicate (width - length s) (CHR ''0'') @ s"

definition segment_name :: "nat \<Rightarrow> string" where
  "segment_name index = zero_pad 6 (decimal index) @ ''.ts''"

text \<open>A directory maps file names to contents. \<open>write_atomic\<close> writes the sibling
  \<open>.part\<close> file and renames it over the target.\<close>

type_synonym directory = "string \<rightharpoonup> string"

definition write_atomic :: "directory \<Rightarrow> string \<Rightarrow> string \<Rightarrow> directory" where
  "write_atomic d path data =
     (let tmp = path @ ''.part'';
          written = d(tmp \<mapsto> data)
      in (written(path := written tmp))(tmp := None))"

section \<open>The concurrent retriever\<close>

text \<open>
  The state the workers share: the output directory, the progress counters \<open>done\<close> and \<open>bytes\<close>
  (updated under the lock) and the lines the main thread prints for failed segments.
\<close>

record retrieval =
  dir :: directory
  done_count :: nat
  bytes_count :: nat
  failures :: "(nat \<times> int option) list"

text \<open>One worker's \<open>task\<close>, with the main thread's report of its result. The network is
  given per segment: \<open>http_of index\<close> answers the attempts for the segment \<open>index\<close>.\<close>

definition task ::
  "(nat \<Rightarrow> 'h http) \<Rightarrow> 'h \<Rightarrow> int \<Rightarrow> int \<Rightarrow> retrieval \<Rightarrow> nat \<times> string \<Rightarrow> retrieval" where
  "task http_of headers timeout retries st index_and_url =
     (let index = fst index_and_url;
          seg_url = snd index_and_url;
          result = fst (try_download (http_of index) seg_url headers timeout retries (1 / 2));
          ok = fst result;
          data = fst (snd result);
          code = snd (snd result);
          st1 = (case data of
                   Some d \<Rightarrow>
                     if ok then st\<lparr>dir := write_atomic (dir st) (segment_name index) d,
                                   done_count := done_count st + 1,
                                   bytes_count := bytes_count st + length d\<rparr>
                     else st
                 | None \<Rightarrow> st)
      in if ok then st1 else st1\<lparr>failures := failures st1 @ [(index, code)]\<rparr>)"

text \<open>
  The tasks of different segments touch different files, and the counters are updated
  under a lock, so a run of the pool is a run of the tasks one after another in some
  order: \<open>order\<close>, a rearrangement of \<open>enumerate(urls)\<close> chosen by the scheduler.
  \<open>ThreadPoolExecutor\<close> refuses a pool of no workers.
\<close>

definition download_segments_concurrent ::
  "(nat \<Rightarrow> 'h http) \<Rightarrow> (nat \<times> string) list \<Rightarrow> 'h \<Rightarrow> int \<Rightarrow> int \<Rightarrow> directory \<Rightarrow> int
     \<Rightarrow> error + retrieval" where
  "download_segments_concurrent http_of order headers timeout retries out_dir concurrency =
     (if concurrency \<le> 0 then Inl (ValueError ''max_workers must be greater than 0'')
      else Inr (foldl (task http_of headers timeout retries)
                  \<lparr>dir = out_dir, done_count = 0, bytes_count = 0, failures = []\<rparr> order))"

section \<open>Assembling\<close>

text \<open>A listing gives the files of the segment directory, name and content, in the order
  the file system lists them. \<open>glob("*.ts")\<close> keeps the names ending in \<open>.ts\<close>;
  \<open>sorted\<close> orders the paths of one directory by name.\<close>

definition endswith :: "string \<Rightarrow> string \<Rightarrow> bool" where
  "endswith s suffix = (length suffix \<le> length s \<and> drop (length s - length suffix) s = suffix)"

definition glob_ts :: "(string \<times> string) list \<Rightarrow> (string \<times> string) list" where
  "glob_ts listing = filter (\<lambda>p. endswith (fst p) ''.ts'') listing"

definition no_segment_files :: error where
  "no_segment_files = RuntimeError ''No segment files to merge''"

definition concat_segments_to_ts :: "(string \<times> string) list \<Rightarrow> error + string" where
  "concat_segments_to_ts segments_dir =
     (let parts = sort_key fst (glob_ts segments_dir) in
      if parts = [] then Inl no_segment_files
      else Inr (foldl (\<lambda>out p. out @ snd p) [] parts))"

section \<open>After the manual download\<close>

text \<open>
  The end of \<open>main\<close> on the playlist path, after \<open>download_segments_concurrent\<close>:
  \<open>n_segments\<close> is \<open>len(segments)\<close>, \<open>segments_dir\<close> the listing of the segment directory
  and \<open>ffmpeg_ok\<close> what \<open>ffmpeg_download_m3u8\<close> returns if it is called. The result is the
  steps taken and how \<open>main\<close> ends. \<open>0.8 * len(segments)\<close> is a floating-point product;
  its integer part is that of the exact product for every length a list can have.
\<close>

datatype step = FfmpegFallback | ConcatSegments

datatype ending = SavedViaFfmpeg | Merged string | Raised error

definition enough_segments :: "nat \<Rightarrow> nat" where
  "enough_segments n_segments = nat (max 1 \<lfloor>(8 / 10) * real n_segments\<rfloor>)"

definition finish_manual :: "nat \<Rightarrow> (string \<times> string) list \<Rightarrow> bool \<Rightarrow> step list \<times> ending" where
  "finish_manual n_segments segments_dir ffmpeg_ok =
     (let downloaded = sort_key fst (glob_ts segments_dir);
          merged = (case concat_segments_to_ts segments_dir of
                      Inl e \<Rightarrow> Raised e | Inr out \<Rightarrow> Merged out)
      in if length downloaded < enough_segments n_segments then
           (if ffmpeg_ok then ([FfmpegFallback], SavedViaFfmpeg)
            else ([FfmpegFallback, ConcatSegments], merged))
         else ([ConcatSegments], merged))"

section \<open>Notions of the statements\<close>

text \<open>The specification's \<open>isEncrypted\<close>, from its words: some key directive has a method
  field (the value after \<open>METHOD=\<close>, up to the next comma) that is present and is not
  \<open>NONE\<close>.\<close>

fun after_first :: "string \<Rightarrow> string \<Rightarrow> string option" where
  "after_first sub [] = (if sub = [] then Some [] else None)"
| "after_first sub (c # cs) =
     (if startswith (c # cs) sub then Some (drop (length sub) (c # cs)) else after_first sub cs)"

definition spec_method_field :: "string \<Rightarrow> string option" where
  "spec_method_field line =
     map_option (takeWhile (\<lambda>c. c \<noteq> CHR '','')) (after_first ''METHOD='' line)"

definition spec_isEncrypted :: "string \<Rightarrow> bool" where
  "spec_isEncrypted text =
     list_ex (\<lambda>line. startswith (strip line) ''#EXT-X-KEY'' \<and>
                (case spec_method_field line of None \<Rightarrow> False | Some m \<Rightarrow> m \<noteq> ''NONE''))
       (splitlines text)"


definition begins_with :: "string \<Rightarrow> string \<Rightarrow> bool" where
  "begins_with tag l = startswith (dropWhile is_space l) tag"



definition key_directive :: "string \<Rightarrow> bool" where
  "key_directive l = begins_with ''#EXT-X-KEY'' l"


text \<open>An answer after which \<open>try_download\<close> may try again: an HTTP error other than 403
  and 404, or any other exception. \<open>status_of\<close> is the HTTP status of an answer, if any.\<close>

definition retriable :: "error + string \<Rightarrow> bool" where
  "retriable r =
     (case r of
        Inr _ \<Rightarrow> False
      | Inl e \<Rightarrow> (case e of HTTPError code \<Rightarrow> code \<noteq> 403 \<and> code \<noteq> 404 | _ \<Rightarrow> True))"

definition status_of :: "error + string \<Rightarrow> int option" where
  "status_of r =
     (case r of
        Inr _ \<Rightarrow> None
      | Inl e \<Rightarrow> (case e of HTTPError code \<Rightarrow> Some code | _ \<Rightarrow> None))"

text \<open>The numeral of \<open>n\<close> in exactly \<open>k\<close> digits, the form the zero-padded names have.\<close>

fun fixed_digits :: "nat \<Rightarrow> nat \<Rightarrow> string" where
  "fixed_digits 0 n = []"
| "fixed_digits (Suc k) n = fixed_digits k (n div 10) @ [digit_char (n mod 10)]"

text \<open>The network of a run in which the segments \<open>good\<close> always succeed, with the
  content \<open>payload\<close>, and every other segment always answers 404.\<close>

definition always_answers ::
  "(nat \<Rightarrow> 'h http) \<Rightarrow> 'h \<Rightarrow> int \<Rightarrow> (nat \<Rightarrow> bool) \<Rightarrow> (nat \<Rightarrow> string) \<Rightarrow> nat \<times> string \<Rightarrow> bool" where
  "always_answers http_of headers timeout good payload e =
     (\<forall>n. http_of (fst e) n (snd e) headers timeout
            = (if good (fst e) then Inr (payload (fst e)) else Inl (HTTPError 404)))"

section \<open>Example playlists\<close>

text \<open>Two master playlists, a \<open>urljoin\<close> for the host \<open>h\<close> and a network that answers the
  first request with one text and every later one with another.\<close>

definition master_equal_bandwidth :: string where
  "master_equal_bandwidth =
     ''#EXTM3U'' @ [CHR 0x0A] @
     ''#EXT-X-STREAM-INF:BANDWIDTH=1200,RESOLUTION=1280x720'' @ [CHR 0x0A] @
     ''low.m3u8'' @ [CHR 0x0A] @
     ''#EXT-X-STREAM-INF:BANDWIDTH=1200,RESOLUTION=1920x1080'' @ [CHR 0x0A] @
     ''high.m3u8'' @ [CHR 0x0A]"

definition master_two_bandwidths :: string where
  "master_two_bandwidths =
     ''#EXTM3U'' @ [CHR 0x0A] @
     ''#EXT-X-STREAM-INF:BANDWIDTH=500'' @ [CHR 0x0A] @
     ''low.m3u8'' @ [CHR 0x0A] @
     ''#EXT-X-STREAM-INF:BANDWIDTH=1200'' @ [CHR 0x0A] @
     ''high.m3u8'' @ [CHR 0x0A]"

definition join_h :: "string \<Rightarrow> string \<Rightarrow> string" where
  "join_h base ref = ''http://h/'' @ ref"

definition serve :: "string \<Rightarrow> string \<Rightarrow> unit http" where
  "serve top_text media n url headers timeout = (if n = 0 then Inr top_text else Inr media)"

text \<open>Media playlists: one with an AES-128 key on an indented line, one whose key has the
  method \<open>NONE\<close>, and one without a key that has blank lines, an indented comment, white
  space around a reference, \<open>\r\n\<close> line ends and no final line break.\<close>

definition aes_playlist :: string where
  "aes_playlist =
     ''#EXTM3U'' @ [CHR 0x0A] @
     '' #EXT-X-KEY:METHOD=AES-128,URI=k.bin,IV=0x01'' @ [CHR 0x0D, CHR 0x0A] @
     ''seg0.ts'' @ [CHR 0x0A]"

definition clear_playlist :: string where
  "clear_playlist =
     ''#EXTM3U'' @ [CHR 0x0A] @ ''#EXT-X-KEY:METHOD=NONE'' @ [CHR 0x0A] @ ''seg0.ts'' @ [CHR 0x0A]"

definition indented_playlist :: string where
  "indented_playlist =
     ''#EXTM3U'' @ [CHR 0x0A, CHR 0x0A] @ [CHR 0x20, CHR 0x09, CHR 0x0A] @
     ''   # indented comment'' @ [CHR 0x0D, CHR 0x0A] @
     ''  seg0.ts  '' @ [CHR 0x0D, CHR 0x0A] @
     ''#EXTINF:4,'' @ [CHR 0x0A] @ ''seg1.ts''"

text \<open>A segment directory holding two of three segments, a server that fails twice
  before it answers, ten segment URLs and a network on which the last five are missing.\<close>

definition two_of_three :: "(string \<times> string) list" where
  "two_of_three = [(''000000.ts'', ''ab''), (''000002.ts'', ''ef'')]"

definition flaky :: "unit http" where
  "flaky n url headers timeout = (if n < 2 then Inl (HTTPError 500) else Inr ''data'')"

definition ten_urls :: "string list" where
  "ten_urls = [''u0'', ''u1'', ''u2'', ''u3'', ''u4'', ''u5'', ''u6'', ''u7'', ''u8'', ''u9'']"

definition half_404 :: "nat \<Rightarrow> unit http" where
  "half_404 index n url headers timeout =
     (if index < 5 then Inr ''data'' else Inl (HTTPError 404))"

section \<open>Lemmas on the loops\<close>


lemma has_encryption_loop_iff:
  "has_encryption_loop lines \<longleftrightarrow>
     (\<exists>line \<in> set lines.
        startswith (strip line) ''#EXT-X-KEY'' \<and> \<not> contains ''METHOD=NONE'' line)"
  by (induction lines) auto

text \<open>\<open>max_from\<close> returns an element with no greater one after it and only smaller ones
  before it.\<close>

lemma max_from_split:
  "\<exists>pre post. b # xs = pre @ max_from key b xs # post \<and>
     (\<forall>x \<in> set pre. key x < key (max_from key b xs)) \<and>
     (\<forall>x \<in> set post. key x \<le> key (max_from key b xs))"
proof (induction xs arbitrary: b)
  case Nil
  show ?case
    by (rule exI [of _ "[]"], rule exI [of _ "[]"]) simp
next
  case (Cons x xs)
  show ?case
  proof (cases "key b < key x")
    case True
    then have eq: "max_from key b (x # xs) = max_from key x xs"
      by simp
    from Cons.IH [of x] obtain pre post where
      d: "x # xs = pre @ max_from key x xs # post"
      and lo: "\<forall>y \<in> set pre. key y < key (max_from key x xs)"
      and hi: "\<forall>y \<in> set post. key y \<le> key (max_from key x xs)"
      by blast
    have "x \<in> set (pre @ max_from key x xs # post)"
      unfolding d [symmetric] by simp
    then have "key x \<le> key (max_from key x xs)"
      using lo hi by auto
    then have "key b < key (max_from key x xs)"
      using True by simp
    then have "b # x # xs = (b # pre) @ max_from key x xs # post \<and>
        (\<forall>y \<in> set (b # pre). key y < key (max_from key x xs)) \<and>
        (\<forall>y \<in> set post. key y \<le> key (max_from key x xs))"
      using d lo hi by simp
    then show ?thesis
      unfolding eq by (rule_tac x = "b # pre" in exI, rule_tac x = post in exI)
  next
    case False
    then have eq: "max_from key b (x # xs) = max_from key b xs"
      by simp
    from Cons.IH [of b] obtain pre post where
      d: "b # xs = pre @ max_from key b xs # post"
      and lo: "\<forall>y \<in> set pre. key y < key (max_from key b xs)"
      and hi: "\<forall>y \<in> set post. key y \<le> key (max_from key b xs)"
      by blast
    show ?thesis
    proof (cases pre)
      case Nil
      then have "b # x # xs = [] @ max_from key b xs # (x # post) \<and>
          (\<forall>y \<in> set []. key y < key (max_from key b xs)) \<and>
          (\<forall>y \<in> set (x # post). key y \<le> key (max_from key b xs))"
        using d hi False by auto
      then show ?thesis
        unfolding eq by (rule_tac x = "[]" in exI, rule_tac x = "x # post" in exI)
    next
      case (Cons p pre')
      note d' = d [unfolded Cons append_Cons]
      have pb: "p = b"
        using d' by (metis list.inject)
      have xs: "xs = pre' @ max_from key b xs # post"
        using d' by (metis list.inject)
      have "key b < key (max_from key b xs)"
        using lo Cons pb by simp
      then have "key x < key (max_from key b xs)"
        using False by simp
      moreover have "b # x # xs = (b # x # pre') @ max_from key b xs # post"
        using xs by simp
      moreover have "\<forall>y \<in> set pre'. key y < key (max_from key b xs)"
        using lo Cons by simp
      ultimately have "b # x # xs = (b # x # pre') @ max_from key b xs # post \<and>
          (\<forall>y \<in> set (b # x # pre'). key y < key (max_from key b xs)) \<and>
          (\<forall>y \<in> set post. key y \<le> key (max_from key b xs))"
        using hi \<open>key b < key (max_from key b xs)\<close> by simp
      then show ?thesis
        unfolding eq by (rule_tac x = "b # x # pre'" in exI, rule_tac x = post in exI)
    qed
  qed
qed

lemma max_from_map:
  "max_from key (f b) (map f xs) = f (max_from (\<lambda>x. key (f x)) b xs)"
  by (induction xs arbitrary: b) auto

lemma max_from_mem: "max_from key b xs \<in> set (b # xs)"
  by (induction xs arbitrary: b) auto

lemma max_from_same_order:
  "(\<forall>x \<in> set (b # xs). \<forall>y \<in> set (b # xs). (k1 x < k1 y) = (k2 x < k2 y))
     \<Longrightarrow> max_from k1 b xs = max_from k2 b xs"
proof (induction xs arbitrary: b)
  case Nil
  show ?case by simp
next
  case (Cons x xs)
  have same: "(k1 b < k1 x) = (k2 b < k2 x)"
    using Cons.prems by simp
  have "\<forall>u \<in> set ((if k1 b < k1 x then x else b) # xs).
          \<forall>v \<in> set ((if k1 b < k1 x then x else b) # xs). (k1 u < k1 v) = (k2 u < k2 v)"
    using Cons.prems by auto
  from Cons.IH [OF this] show ?case
    using same by simp
qed

section \<open>Lemmas on lines\<close>

text \<open>The lines \<open>parse_m3u8\<close> keeps are the non-blank lines, stripped; a tag begins the
  stripped line exactly when it follows the leading white space of the line.\<close>

lemma startswith_Nil: "startswith s [] = True"
  by (simp add: startswith_def)

lemma startswith_Nil_Cons: "startswith [] (x # p) = False"
  by (simp add: startswith_def)

lemma startswith_Cons_Cons: "startswith (c # s) (x # p) = (c = x \<and> startswith s p)"
  by (auto simp: startswith_def)

lemmas startswith_simps = startswith_Nil startswith_Nil_Cons startswith_Cons_Cons

lemma startswith_append_other:
  assumes "\<forall>c \<in> set ws. Q c" "\<forall>c \<in> set p. \<not> Q c"
  shows "startswith (s @ ws) p = startswith s p"
  using assms(2)
proof (induction s arbitrary: p)
  case Nil
  show ?case
  proof (cases p)
    case Nil
    then show ?thesis by (simp add: startswith_simps)
  next
    case (Cons x p')
    then show ?thesis
      using assms(1) Nil.prems by (cases ws) (auto simp: startswith_simps)
  qed
next
  case (Cons c s)
  show ?case
  proof (cases p)
    case Nil
    then show ?thesis by (simp add: startswith_simps)
  next
    case p: (Cons x p')
    then have "\<forall>c \<in> set p'. \<not> Q c"
      using Cons.prems by simp
    from Cons.IH [OF this] show ?thesis
      by (simp add: p startswith_simps)
  qed
qed

lemma strip_split:
  "\<exists>ws. dropWhile is_space l = strip l @ ws \<and> (\<forall>c \<in> set ws. is_space c)"
proof -
  let ?d = "dropWhile is_space l"
  let ?ws = "rev (takeWhile is_space (rev ?d))"
  have "rev (takeWhile is_space (rev ?d) @ dropWhile is_space (rev ?d)) = rev (rev ?d)"
    by (rule arg_cong [OF takeWhile_dropWhile_id])
  then have "rev (dropWhile is_space (rev ?d)) @ ?ws = ?d"
    unfolding rev_append rev_rev_ident .
  then have eq: "?d = strip l @ ?ws"
    unfolding strip_def by (rule sym)
  have "\<forall>c \<in> set ?ws. is_space c"
    by (auto dest: set_takeWhileD)
  with eq show ?thesis
    by (rule_tac x = ?ws in exI) (rule conjI)
qed



lemma startswith_strip:
  assumes "\<forall>c \<in> set tag. \<not> is_space c"
  shows "startswith (strip l) tag = begins_with tag l"
proof -
  from strip_split [of l] obtain ws where
    d: "dropWhile is_space l = strip l @ ws" and ws: "\<forall>c \<in> set ws. is_space c"
    by (elim exE conjE)
  show ?thesis
    unfolding begins_with_def d by (rule startswith_append_other [OF ws assms, symmetric])
qed

lemma tags_plain:
  "\<forall>c \<in> set ''#''. \<not> is_space c"
  "\<forall>c \<in> set ''#EXT-X-STREAM-INF''. \<not> is_space c"
  "\<forall>c \<in> set ''#EXT-X-KEY''. \<not> is_space c"
  by (simp_all add: is_space_def)






lemma contains_append: "startswith t sub \<Longrightarrow> contains sub (pre @ t)"
proof (induction pre)
  case Nil
  then show ?case
    by (cases t) (auto simp: startswith_def)
next
  case (Cons p pre)
  then show ?case by simp
qed

lemma after_first_decomp:
  "after_first sub l = Some r \<Longrightarrow> \<exists>pre. l = pre @ sub @ r"
proof (induction l)
  case Nil
  then show ?case
    by (simp split: if_splits)
next
  case (Cons c cs)
  show ?case
  proof (cases "startswith (c # cs) sub")
    case True
    then have "r = drop (length sub) (c # cs)"
      using Cons.prems by simp
    moreover have "take (length sub) (c # cs) = sub"
      using True by (simp only: startswith_def)
    ultimately have "c # cs = [] @ sub @ r"
      using append_take_drop_id [of "length sub" "c # cs"] by simp
    then show ?thesis
      by (rule exI [of _ "[]"])
  next
    case False
    then have "after_first sub cs = Some r"
      using Cons.prems by simp
    from Cons.IH [OF this] obtain pre where "cs = pre @ sub @ r" ..
    then have "c # cs = (c # pre) @ sub @ r"
      by simp
    then show ?thesis
      by (rule exI [of _ "c # pre"])
  qed
qed

lemma method_none_contains:
  assumes "spec_method_field line = Some ''NONE''"
  shows "contains ''METHOD=NONE'' line"
proof -
  from assms obtain r where r: "after_first ''METHOD='' line = Some r"
    and field: "takeWhile (\<lambda>c. c \<noteq> CHR '','') r = ''NONE''"
    by (auto simp: spec_method_field_def)
  from after_first_decomp [OF r] obtain pre where l: "line = pre @ ''METHOD='' @ r" ..
  define d where "d = dropWhile (\<lambda>c. c \<noteq> CHR '','') r"
  have "takeWhile (\<lambda>c. c \<noteq> CHR '','') r @ d = r"
    unfolding d_def by (rule takeWhile_dropWhile_id)
  then have eq: "''NONE'' @ d = r"
    unfolding field .
  have "startswith (''METHOD='' @ ''NONE'' @ d) ''METHOD=NONE''"
    by (simp add: startswith_simps)
  then have "contains ''METHOD=NONE'' (pre @ ''METHOD='' @ ''NONE'' @ d)"
    by (rule contains_append)
  then show ?thesis
    unfolding l eq .
qed

lemma key_lines_logic:
  assumes "\<And>x. M x \<Longrightarrow> C x" and "\<And>x. A x \<Longrightarrow> \<not> M x"
  shows "((\<exists>x \<in> S. K x \<and> \<not> C x) \<longrightarrow> (\<exists>x \<in> S. K x \<and> \<not> M x)) \<and>
         ((\<forall>x \<in> S. K x \<and> C x \<longrightarrow> M x) \<longrightarrow>
            ((\<exists>x \<in> S. K x \<and> \<not> C x) \<longleftrightarrow> (\<exists>x \<in> S. K x \<and> \<not> M x)) \<and>
            ((\<exists>x \<in> S. K x \<and> A x) \<longrightarrow> (\<exists>x \<in> S. K x \<and> \<not> C x))) \<and>
         ((\<forall>x \<in> S. K x \<longrightarrow> M x) \<longrightarrow> \<not> (\<exists>x \<in> S. K x \<and> \<not> C x)) \<and>
         ((\<forall>x \<in> S. \<not> K x) \<longrightarrow> \<not> (\<exists>x \<in> S. K x \<and> \<not> C x))"
  using assms by blast

lemma playlist_has_encryption_key_lines:
  "playlist_has_encryption m3u8_text \<longleftrightarrow>
     (\<exists>line \<in> set (splitlines m3u8_text).
        key_directive line \<and> \<not> contains ''METHOD=NONE'' line)"
  by (simp add: playlist_has_encryption_def has_encryption_loop_iff key_directive_def
      startswith_strip [OF tags_plain(3)])

section \<open>Encryption\<close>

text \<open>
  C4, as the specification states it, fails: a key line without any \<open>METHOD\<close> field is
  reported encrypted, although no method field is present.
\<close>

theorem playlist_has_encryption_counterexample:
  "playlist_has_encryption ''#EXT-X-KEY:IV=0x01'' \<and> \<not> spec_isEncrypted ''#EXT-X-KEY:IV=0x01''"
  by code_simp

text \<open>
  C4, amended. Whenever \<open>playlist_has_encryption\<close> returns true, some key directive line
  has a method field that is absent or is not \<open>NONE\<close>. For a text in which \<open>METHOD=NONE\<close>
  stands on a key directive line only as that line's method field \<open>NONE\<close>, it returns true
  if and only if some key directive line has a method field that is absent or is not
  \<open>NONE\<close>; so there a key directive with \<open>METHOD=AES-128\<close> is reported encrypted. A text
  whose key directives all have the method \<open>NONE\<close>, or without a key directive, is never
  reported encrypted.
\<close>

theorem playlist_has_encryption_method_field:
  "(playlist_has_encryption m3u8_text \<longrightarrow>
      (\<exists>line \<in> set (splitlines m3u8_text).
         key_directive line \<and> spec_method_field line \<noteq> Some ''NONE'')) \<and>
   ((\<forall>line \<in> set (splitlines m3u8_text).
       key_directive line \<and> contains ''METHOD=NONE'' line
         \<longrightarrow> spec_method_field line = Some ''NONE'') \<longrightarrow>
      (playlist_has_encryption m3u8_text \<longleftrightarrow>
         (\<exists>line \<in> set (splitlines m3u8_text).
            key_directive line \<and> spec_method_field line \<noteq> Some ''NONE'')) \<and>
      ((\<exists>line \<in> set (splitlines m3u8_text).
          key_directive line \<and> spec_method_field line = Some ''AES-128'')
         \<longrightarrow> playlist_has_encryption m3u8_text)) \<and>
   ((\<forall>line \<in> set (splitlines m3u8_text).
       key_directive line \<longrightarrow> spec_method_field line = Some ''NONE'')
      \<longrightarrow> \<not> playlist_has_encryption m3u8_text) \<and>
   ((\<forall>line \<in> set (splitlines m3u8_text). \<not> key_directive line)
      \<longrightarrow> \<not> playlist_has_encryption m3u8_text)"
proof -
  have other: "spec_method_field line \<noteq> Some ''NONE''"
    if "spec_method_field line = Some ''AES-128''" for line
    using that by simp
  show ?thesis
    unfolding playlist_has_encryption_key_lines
    by (rule key_lines_logic
        [where M = "\<lambda>line. spec_method_field line = Some ''NONE''"
           and A = "\<lambda>line. spec_method_field line = Some ''AES-128''"
           and C = "contains ''METHOD=NONE''" and K = key_directive
           and S = "set (splitlines m3u8_text)",
         OF method_none_contains other])
qed

theorem playlist_has_encryption_method_field_witness:
  "list_all (\<lambda>line. key_directive line \<and> contains ''METHOD=NONE'' line
               \<longrightarrow> spec_method_field line = Some ''NONE'') (splitlines aes_playlist) \<and>
   list_ex (\<lambda>line. key_directive line \<and> spec_method_field line = Some ''AES-128'')
     (splitlines aes_playlist) \<and>
   playlist_has_encryption aes_playlist \<and>
   list_all (\<lambda>line. key_directive line \<longrightarrow> spec_method_field line = Some ''NONE'')
     (splitlines clear_playlist) \<and>
   \<not> playlist_has_encryption clear_playlist \<and>
   list_all (\<lambda>line. \<not> key_directive line) (splitlines indented_playlist) \<and>
   \<not> playlist_has_encryption indented_playlist"
proof -
  have only: "list_all (\<lambda>line. key_directive line \<and> contains ''METHOD=NONE'' line
               \<longrightarrow> spec_method_field line = Some ''NONE'') (splitlines aes_playlist)"
    by code_simp
  have aes: "list_ex (\<lambda>line. key_directive line \<and> spec_method_field line = Some ''AES-128'')
     (splitlines aes_playlist)"
    by code_simp
  have clear: "list_all (\<lambda>line. key_directive line \<longrightarrow> spec_method_field line = Some ''NONE'')
     (splitlines clear_playlist)"
    by code_simp
  have nokey: "list_all (\<lambda>line. \<not> key_directive line) (splitlines indented_playlist)"
    by code_simp
  note aes_facts = playlist_has_encryption_method_field [of aes_playlist]
  note clear_facts = playlist_has_encryption_method_field [of clear_playlist]
  note nokey_facts = playlist_has_encryption_method_field [of indented_playlist]
  have "playlist_has_encryption aes_playlist"
    by (rule mp [OF conjunct2 [OF mp [OF conjunct1 [OF conjunct2 [OF aes_facts]]
          only [unfolded list_all_iff]]] aes [unfolded list_ex_iff]])
  moreover have "\<not> playlist_has_encryption clear_playlist"
    by (rule mp [OF conjunct1 [OF conjunct2 [OF conjunct2 [OF clear_facts]]]
          clear [unfolded list_all_iff]])
  moreover have "\<not> playlist_has_encryption indented_playlist"
    by (rule mp [OF conjunct2 [OF conjunct2 [OF conjunct2 [OF nokey_facts]]]
          nokey [unfolded list_all_iff]])
  ultimately show ?thesis
    using only aes clear nokey by (intro conjI)
qed

section \<open>Media playlists\<close>



section \<open>Choosing a variant\<close>

text \<open>
  C6. \<open>choose_variant_best\<close> is a function of the variant list alone (it reads no state,
  so two calls on one list agree). On a non-empty list it returns the URL of a variant
  whose key (bandwidth, height-or-zero) is greatest, every variant before it having a
  strictly smaller key: among equal keys the first occurrence wins. For the variants
  (500, 480), (1200, 720), (1200, 1080) it returns the third.
\<close>

theorem choose_variant_best_first_max:
  "(variants \<noteq> [] \<longrightarrow>
      (\<exists>pre v post. variants = pre @ v # post \<and>
         choose_variant_best variants = Inr (snd (snd v)) \<and>
         (\<forall>x \<in> set pre. (fst x, or_zero (fst (snd x))) < (fst v, or_zero (fst (snd v)))) \<and>
         (\<forall>x \<in> set post. (fst x, or_zero (fst (snd x))) \<le> (fst v, or_zero (fst (snd v)))))) \<and>
   choose_variant_best [(500, Some 480, u1), (1200, Some 720, u2), (1200, Some 1080, u3)] = Inr u3"
proof (intro conjI impI)
  assume "variants \<noteq> []"
  then obtain b xs where v: "variants = b # xs"
    by (cases variants) auto
  let ?key = "\<lambda>v :: int \<times> int option \<times> string. (fst v, or_zero (fst (snd v)))"
  from max_from_split [of b xs ?key] obtain pre post where
    "b # xs = pre @ max_from ?key b xs # post"
    "\<forall>x \<in> set pre. ?key x < ?key (max_from ?key b xs)"
    "\<forall>x \<in> set post. ?key x \<le> ?key (max_from ?key b xs)"
    by blast
  moreover have "choose_variant_best variants = Inr (snd (snd (max_from ?key b xs)))"
    by (simp add: choose_variant_best_def py_max_def v)
  ultimately have "variants = pre @ max_from ?key b xs # post \<and>
      choose_variant_best variants = Inr (snd (snd (max_from ?key b xs))) \<and>
      (\<forall>x \<in> set pre. ?key x < ?key (max_from ?key b xs)) \<and>
      (\<forall>x \<in> set post. ?key x \<le> ?key (max_from ?key b xs))"
    using v by simp
  then show "\<exists>pre v post. variants = pre @ v # post \<and>
         choose_variant_best variants = Inr (snd (snd v)) \<and>
         (\<forall>x \<in> set pre. ?key x < ?key v) \<and> (\<forall>x \<in> set post. ?key x \<le> ?key v)"
    by (intro exI)
next
  show "choose_variant_best [(500, Some 480, u1), (1200, Some 720, u2), (1200, Some 1080, u3)]
          = Inr u3"
    by (simp add: choose_variant_best_def py_max_def or_zero_def)
qed

theorem choose_variant_best_first_max_witness:
  "[(1200 :: int, Some (720 :: int), ''a''), (1200, Some 720, ''b''), (800, None, ''c'')] \<noteq> [] \<and>
   (\<exists>pre v post.
      [(1200 :: int, Some (720 :: int), ''a''), (1200, Some 720, ''b''), (800, None, ''c'')] = pre @ v # post \<and>
      choose_variant_best [(1200 :: int, Some (720 :: int), ''a''), (1200, Some 720, ''b''), (800, None, ''c'')]
        = Inr (snd (snd v)) \<and>
      (\<forall>x \<in> set pre. (fst x, or_zero (fst (snd x))) < (fst v, or_zero (fst (snd v)))) \<and>
      (\<forall>x \<in> set post. (fst x, or_zero (fst (snd x))) \<le> (fst v, or_zero (fst (snd v))))) \<and>
   choose_variant_best [(500, Some 480, ''x''), (1200, Some 720, ''y''), (1200, Some 1080, ''z'')]
     = Inr ''z''"
proof -
  let ?vs = "[(1200, Some 720, ''a''), (1200, Some 720, ''b''), (800, None, ''c'')]
               :: (int \<times> int option \<times> string) list"
  have ne: "?vs \<noteq> []"
    by (rule list.distinct(2))
  note inst = choose_variant_best_first_max [of ?vs "''x''" "''y''" "''z''"]
  show ?thesis
    by (intro conjI ne inst [THEN conjunct1, THEN mp, OF ne] inst [THEN conjunct2])
qed

section \<open>Lemmas on the master playlist loop\<close>

lemma is_digit_not_space: "is_digit c \<Longrightarrow> \<not> is_space c"
  by (auto simp: is_digit_def is_space_def less_eq_char_def)

lemma is_digit_not_sign: "is_digit c \<Longrightarrow> c \<noteq> CHR ''-'' \<and> c \<noteq> CHR ''+'' \<and> c \<noteq> CHR ''_''"
  by (auto simp: is_digit_def less_eq_char_def)

lemma backslash_plain:
  "\<not> is_space backslash \<and> \<not> is_digit backslash \<and> backslash \<noteq> CHR ''-'' \<and> backslash \<noteq> CHR ''+''"
  by (simp add: backslash_def is_space_def is_digit_def less_eq_char_def)

lemma strip_keeps:
  assumes "s \<noteq> []" "\<not> is_space (hd s)" "\<not> is_space (last s)"
  shows "strip s = s"
proof -
  have "dropWhile is_space s = s"
    using assms(1,2) by (cases s) auto
  moreover have "dropWhile is_space (rev s) = rev s"
    using assms(1,3) by (cases "rev s") (auto simp: last_rev [symmetric] hd_rev)
  ultimately show ?thesis
    by (simp add: strip_def)
qed

lemma strip_head:
  assumes "\<not> is_space c"
  shows "\<exists>r. strip (c # cs) = c # r"
proof -
  have "dropWhile is_space (c # cs) = c # cs"
    using assms by simp
  moreover have "\<exists>ys. dropWhile is_space (rev cs @ [c]) = ys @ [c]"
    using assms by (simp add: dropWhile_append3 dropWhile_append)
  ultimately obtain ys where "strip (c # cs) = rev (ys @ [c])"
    by (auto simp: strip_def)
  then show ?thesis
    by simp
qed

lemma digit_groups_head: "digit_groups (c # r) \<Longrightarrow> is_digit c"
  by (cases r) auto

lemma digit_groups_digits: "s \<noteq> [] \<Longrightarrow> \<forall>c \<in> set s. is_digit c \<Longrightarrow> digit_groups s"
  by (induction s rule: digit_groups.induct) (auto dest: is_digit_not_sign)

lemma py_int_digits:
  assumes "s \<noteq> []" "\<forall>c \<in> set s. is_digit c" "length s \<le> 4300"
  shows "py_int s = Inr (decimal_value s)"
proof -
  have "is_digit (hd s)" "is_digit (last s)"
    using assms by auto
  then have "strip s = s"
    using assms(1) by (intro strip_keeps) (auto dest: is_digit_not_space)
  moreover have "hd s \<noteq> CHR ''-''" "hd s \<noteq> CHR ''+''"
    using \<open>is_digit (hd s)\<close> is_digit_not_sign by blast+
  moreover have "filter is_digit s = s"
    using assms(2) by (simp add: filter_id_conv)
  ultimately show ?thesis
    using assms by (simp add: py_int_def Let_def digit_groups_digits int_max_str_digits_def)
qed

lemma py_int_backslash: "\<exists>e. py_int (backslash # ds) = Inl e"
proof -
  obtain r where r: "strip (backslash # ds) = backslash # r"
    using strip_head [of backslash ds] backslash_plain by blast
  have "\<not> digit_groups (backslash # r)"
    using digit_groups_head [of backslash r] backslash_plain by blast
  then show ?thesis
    using backslash_plain by (simp add: py_int_def Let_def r)
qed

lemma re_search_cases:
  "re_search m s = Some g \<Longrightarrow> \<exists>t. m t = Some g"
  by (induction s) (auto split: option.splits)

lemma bandwidth_digits_run:
  "bandwidth_digits t = Some g \<Longrightarrow> g \<noteq> [] \<and> (\<forall>c \<in> set g. is_digit c)"
  by (auto simp: bandwidth_digits_def match_run_def Let_def split: if_splits dest: set_takeWhileD)

lemma bandwidth_escaped_run:
  "bandwidth_escaped t = Some g \<Longrightarrow> \<exists>ds. g = backslash # ds"
  by (auto simp: bandwidth_escaped_def match_run_def Let_def split: if_splits)

lemma resolution_escaped_run:
  "resolution_escaped t = Some g \<Longrightarrow> \<exists>ds. g = backslash # ds"
  by (auto simp: resolution_escaped_def match_run_def Let_def split: if_splits option.splits)

lemma bandwidth_attr_escaped_zero: "bandwidth_attr_escaped line = Inr b \<Longrightarrow> b = 0"
proof (cases "re_search bandwidth_escaped line")
  case None
  assume "bandwidth_attr_escaped line = Inr b"
  with None show ?thesis by (simp add: bandwidth_attr_escaped_def)
next
  case (Some g)
  assume r: "bandwidth_attr_escaped line = Inr b"
  from re_search_cases [OF Some] obtain t where "bandwidth_escaped t = Some g" ..
  from bandwidth_escaped_run [OF this] obtain ds where "g = backslash # ds" ..
  then obtain e where "py_int g = Inl e"
    using py_int_backslash [of ds] by blast
  with Some r show ?thesis
    by (simp add: bandwidth_attr_escaped_def)
qed

lemma height_attr_escaped_none: "height_attr_escaped line = Inr h \<Longrightarrow> h = None"
proof (cases "re_search resolution_escaped line")
  case None
  assume "height_attr_escaped line = Inr h"
  with None show ?thesis by (simp add: height_attr_escaped_def)
next
  case (Some g)
  assume r: "height_attr_escaped line = Inr h"
  from re_search_cases [OF Some] obtain t where "resolution_escaped t = Some g" ..
  from resolution_escaped_run [OF this] obtain ds where "g = backslash # ds" ..
  then obtain e where "py_int g = Inl e"
    using py_int_backslash [of ds] by blast
  with Some r show ?thesis
    by (simp add: height_attr_escaped_def)
qed

lemma variants_loop_skip:
  "\<not> startswith line ''#EXT-X-STREAM-INF'' \<Longrightarrow>
     variants_loop attrs mk urljoin base (line # rest) variants
       = variants_loop attrs mk urljoin base rest variants"
  by (simp only: variants_loop.simps(2) [of attrs mk urljoin base line rest variants] if_False)

lemma variants_loop_raise:
  "startswith line ''#EXT-X-STREAM-INF'' \<Longrightarrow> attrs line = Inl e \<Longrightarrow>
     variants_loop attrs mk urljoin base (line # rest) variants = Inl e"
  by (simp only: variants_loop.simps(2) [of attrs mk urljoin base line rest variants] if_True sum.case)

lemma variants_loop_last:
  "startswith line ''#EXT-X-STREAM-INF'' \<Longrightarrow> attrs line = Inr a \<Longrightarrow>
   dropWhile (\<lambda>l. startswith l ''#'') rest = [] \<Longrightarrow>
     variants_loop attrs mk urljoin base (line # rest) variants = Inr variants"
  by (simp only: variants_loop.simps(2) [of attrs mk urljoin base line rest variants] if_True sum.case list.case)

lemma variants_loop_take:
  "startswith line ''#EXT-X-STREAM-INF'' \<Longrightarrow> attrs line = Inr a \<Longrightarrow>
   dropWhile (\<lambda>l. startswith l ''#'') rest = u # after \<Longrightarrow>
     variants_loop attrs mk urljoin base (line # rest) variants
       = variants_loop attrs mk urljoin base (u # after) (variants @ [mk a (urljoin base u)])"
  by (simp only: variants_loop.simps(2) [of attrs mk urljoin base line rest variants] if_True sum.case list.case)

lemma variants_loop_total:
  assumes "\<And>line. \<exists>a. attrs line = Inr a"
  shows "\<exists>vs. variants_loop attrs mk urljoin base lines acc = Inr vs"
  using assms
proof (induction attrs mk urljoin base lines acc rule: variants_loop.induct)
  case (1 attrs mk urljoin base variants)
  show ?case by simp
next
  case (2 attrs mk urljoin base line rest variants)
  obtain a where a: "attrs line = Inr a"
    using "2.prems" by blast
  show ?case
  proof (cases "startswith line ''#EXT-X-STREAM-INF''")
    case False
    show ?thesis
      unfolding variants_loop_skip [OF False] by (rule "2.IH"(2) [OF False "2.prems"])
  next
    case True
    show ?thesis
    proof (cases "dropWhile (\<lambda>l. startswith l ''#'') rest")
      case Nil
      show ?thesis
        unfolding variants_loop_last [where attrs = attrs and line = line, OF True a Nil] by simp
    next
      case (Cons u after)
      show ?thesis
        unfolding variants_loop_take [where attrs = attrs and line = line, OF True a Cons]
        by (rule "2.IH"(1) [OF True a Cons "2.prems"])
    qed
  qed
qed

lemma variants_loop_all:
  assumes "variants_loop attrs mk urljoin base lines acc = Inr vs"
    and "\<forall>v \<in> set acc. Q v"
    and "\<And>line a u. attrs line = Inr a \<Longrightarrow> Q (mk a u)"
  shows "\<forall>v \<in> set vs. Q v"
  using assms
proof (induction attrs mk urljoin base lines acc rule: variants_loop.induct)
  case (1 attrs mk urljoin base variants)
  then show ?case by simp
next
  case (2 attrs mk urljoin base line rest variants)
  show ?case
  proof (cases "startswith line ''#EXT-X-STREAM-INF''")
    case False
    from "2.prems"(1) have "variants_loop attrs mk urljoin base rest variants = Inr vs"
      unfolding variants_loop_skip [OF False] .
    from "2.IH"(2) [OF False this "2.prems"(2,3)] show ?thesis .
  next
    case True
    show ?thesis
    proof (cases "attrs line")
      case (Inl e)
      from "2.prems"(1) show ?thesis
        unfolding variants_loop_raise [where attrs = attrs and line = line, OF True Inl] by simp
    next
      case (Inr a)
      show ?thesis
      proof (cases "dropWhile (\<lambda>l. startswith l ''#'') rest")
        case Nil
        from "2.prems"(1) have "vs = variants"
          unfolding variants_loop_last [where attrs = attrs and line = line, OF True Inr Nil] by simp
        then show ?thesis
          using "2.prems"(2) by simp
      next
        case (Cons u after)
        from "2.prems"(1)
        have run: "variants_loop attrs mk urljoin base (u # after)
                     (variants @ [mk a (urljoin base u)]) = Inr vs"
          unfolding variants_loop_take [where attrs = attrs and line = line, OF True Inr Cons] .
        have "\<forall>v \<in> set (variants @ [mk a (urljoin base u)]). Q v"
          using "2.prems"(2) "2.prems"(3) [OF Inr] by simp
        from "2.IH"(1) [OF True Inr Cons run this "2.prems"(3)] show ?thesis .
      qed
    qed
  qed
qed

lemma variants_loop_uris:
  assumes "variants_loop attrs1 mk1 urljoin base lines acc1 = Inr vs1"
    and "variants_loop attrs2 mk2 urljoin base lines acc2 = Inr vs2"
    and "map uri1 acc1 = map uri2 acc2"
    and "\<And>a u. uri1 (mk1 a u) = u"
    and "\<And>a u. uri2 (mk2 a u) = u"
  shows "map uri1 vs1 = map uri2 vs2"
  using assms
proof (induction attrs1 mk1 urljoin base lines acc1 arbitrary: acc2
    rule: variants_loop.induct)
  case (1 attrs mk urljoin base variants)
  then show ?case by simp
next
  case (2 attrs mk urljoin base line rest variants)
  show ?case
  proof (cases "startswith line ''#EXT-X-STREAM-INF''")
    case False
    from "2.prems"(1) have run1: "variants_loop attrs mk urljoin base rest variants = Inr vs1"
      unfolding variants_loop_skip [OF False] .
    from "2.prems"(2) have run2: "variants_loop attrs2 mk2 urljoin base rest acc2 = Inr vs2"
      unfolding variants_loop_skip [OF False] .
    from "2.IH"(2) [OF False run1 run2 "2.prems"(3,4,5)] show ?thesis .
  next
    case True
    show ?thesis
    proof (cases "attrs line")
      case (Inl e)
      from "2.prems"(1) show ?thesis
        unfolding variants_loop_raise [where attrs = attrs and line = line, OF True Inl] by simp
    next
      case a1: (Inr a)
      show ?thesis
      proof (cases "attrs2 line")
        case (Inl e)
        from "2.prems"(2) show ?thesis
          unfolding variants_loop_raise [where attrs = attrs2 and line = line, OF True Inl] by simp
      next
        case a2: (Inr a')
        show ?thesis
        proof (cases "dropWhile (\<lambda>l. startswith l ''#'') rest")
          case Nil
          from "2.prems"(1) have "vs1 = variants"
            unfolding variants_loop_last [where attrs = attrs and line = line, OF True a1 Nil] by simp
          moreover from "2.prems"(2) have "vs2 = acc2"
            unfolding variants_loop_last [where attrs = attrs2 and line = line, OF True a2 Nil] by simp
          ultimately show ?thesis
            using "2.prems"(3) by simp
        next
          case (Cons u after)
          from "2.prems"(1)
          have run1: "variants_loop attrs mk urljoin base (u # after)
                       (variants @ [mk a (urljoin base u)]) = Inr vs1"
            unfolding variants_loop_take [where attrs = attrs and line = line, OF True a1 Cons] .
          from "2.prems"(2)
          have run2: "variants_loop attrs2 mk2 urljoin base (u # after)
                       (acc2 @ [mk2 a' (urljoin base u)]) = Inr vs2"
            unfolding variants_loop_take [where attrs = attrs2 and line = line, OF True a2 Cons] .
          have accs: "map uri1 (variants @ [mk a (urljoin base u)])
                        = map uri2 (acc2 @ [mk2 a' (urljoin base u)])"
            using "2.prems"(3,4,5) by simp
          from "2.IH"(1) [OF True a1 Cons run1 run2 accs "2.prems"(4,5)] show ?thesis .
        qed
      qed
    qed
  qed
qed

lemma max_from_first: "\<forall>x \<in> set xs. \<not> key b < key x \<Longrightarrow> max_from key b xs = b"
  by (induction xs) auto

lemma re_search_suffix:
  "re_search m s = Some g \<Longrightarrow> \<exists>pre t. s = pre @ t \<and> m t = Some g"
proof (induction s)
  case Nil
  then have "[] = [] @ [] \<and> m [] = Some g"
    by simp
  then show ?case
    by (rule_tac x = "[]" in exI, rule_tac x = "[]" in exI)
next
  case (Cons c cs)
  show ?case
  proof (cases "m (c # cs)")
    case (Some h)
    then have "c # cs = [] @ (c # cs) \<and> m (c # cs) = Some g"
      using Cons.prems by simp
    then show ?thesis
      by (rule_tac x = "[]" in exI, rule_tac x = "c # cs" in exI)
  next
    case None
    then have "re_search m cs = Some g"
      using Cons.prems by simp
    from Cons.IH [OF this] obtain pre t where "cs = pre @ t" "m t = Some g"
      by (elim exE conjE)
    then have "c # cs = (c # pre) @ t \<and> m t = Some g"
      by simp
    then show ?thesis
      by (rule_tac x = "c # pre" in exI, rule_tac x = t in exI)
  qed
qed

lemma match_run_starts:
  assumes "match_run lit cls t = Some r"
  shows "\<exists>c. cls c \<and> startswith t (lit @ [c])"
proof -
  have st: "take (length lit) t = lit" and run: "takeWhile cls (drop (length lit) t) \<noteq> []"
    using assms by (auto simp: match_run_def Let_def startswith_def split: if_splits)
  from run obtain c tail where tail: "drop (length lit) t = c # tail" and c: "cls c"
    by (cases "drop (length lit) t") (auto split: if_splits)
  have "t = lit @ c # tail"
    using st tail append_take_drop_id [of "length lit" t] by simp
  then have "startswith t (lit @ [c])"
    by (simp add: startswith_def)
  with c show ?thesis by blast
qed

lemma bandwidth_attr_escaped_plain:
  assumes "\<not> contains (''BANDWIDTH='' @ [backslash, CHR ''d'']) line"
  shows "bandwidth_attr_escaped line = Inr 0"
proof (cases "re_search bandwidth_escaped line")
  case None
  then show ?thesis by (simp add: bandwidth_attr_escaped_def)
next
  case (Some g)
  from re_search_suffix [OF Some] obtain pre t where
    line: "line = pre @ t" and t: "bandwidth_escaped t = Some g"
    by (elim exE conjE)
  from t obtain r where "match_run (''BANDWIDTH='' @ [backslash]) (\<lambda>c. c = CHR ''d'') t = Some r"
    by (auto simp: bandwidth_escaped_def)
  from match_run_starts [OF this]
  have "startswith t ((''BANDWIDTH='' @ [backslash]) @ [CHR ''d''])"
    by simp
  then have "contains ((''BANDWIDTH='' @ [backslash]) @ [CHR ''d'']) (pre @ t)"
    by (rule contains_append)
  then show ?thesis
    using assms line by simp
qed

lemma probed_zero:
  assumes "variants_loop bandwidth_attr_escaped Pair urljoin base lines [] = Inr probed"
  shows "\<forall>v \<in> set probed. fst v = 0"
proof (rule variants_loop_all [OF assms])
  show "\<forall>v \<in> set []. fst v = 0" by simp
next
  fix line a u
  assume "bandwidth_attr_escaped line = Inr a"
  then show "fst (a, u) = 0"
    using bandwidth_attr_escaped_zero [of line a] by simp
qed

lemma probed_listed:
  assumes "variants_loop bandwidth_attr_escaped Pair urljoin base lines [] = Inr probed"
    and "variants_loop bandwidth_attr Pair urljoin base lines [] = Inr listed"
  shows "map snd probed = map snd listed"
  by (rule variants_loop_uris [OF assms]) simp_all

lemma py_max_first:
  assumes "\<forall>v \<in> set vs. key v = k" "vs \<noteq> []"
  shows "py_max key vs = Inr (hd vs)"
proof -
  obtain b xs where vs: "vs = b # xs"
    using assms(2) by (cases vs) auto
  have "max_from key b xs = b"
    using assms(1) vs by (intro max_from_first) simp
  then show ?thesis
    by (simp add: py_max_def vs)
qed

lemma parse_master_variants_only_zero:
  assumes "parse_master_variants_only urljoin content base_url = Inr vs"
  shows "\<forall>v \<in> set vs. fst v = 0 \<and> fst (snd v) = None"
proof (rule variants_loop_all [OF assms [unfolded parse_master_variants_only_def]])
  show "\<forall>v \<in> set []. fst v = 0 \<and> fst (snd v) = None" by simp
next
  fix line and a :: "int \<times> int option" and u :: string
  assume "(case bandwidth_attr_escaped line of Inl e \<Rightarrow> Inl e
           | Inr bandwidth \<Rightarrow>
               (case height_attr_escaped line of Inl e \<Rightarrow> Inl e
                | Inr height \<Rightarrow> Inr (bandwidth, height))) = Inr a"
  then have "a = (0, None)"
    using bandwidth_attr_escaped_zero [of line] height_attr_escaped_none [of line]
    by (auto split: sum.splits)
  then show "fst ((case a of (bandwidth, height) \<Rightarrow> \<lambda>uri. (bandwidth, height, uri)) u) = 0 \<and>
             fst (snd ((case a of (bandwidth, height) \<Rightarrow> \<lambda>uri. (bandwidth, height, uri)) u)) = None"
    by simp
qed

lemma detect_returns:
  assumes "http_get 0 m3u8_url headers timeout = Inr top_text"
    and "is_master (stripped_lines top_text)"
    and "variants_loop bandwidth_attr_escaped Pair urljoin m3u8_url (stripped_lines top_text) []
           = Inr chain"
    and "chain \<noteq> []"
  shows "detect_encryption_in_playlist_chain urljoin http_get m3u8_url headers timeout
           = ([m3u8_url, snd (hd chain)],
              (case http_get 1 (snd (hd chain)) headers timeout of
                 Inl e \<Rightarrow> Inl e
               | Inr media \<Rightarrow> Inr (playlist_has_encryption media)))"
proof -
  have "py_max fst chain = Inr (hd chain)"
    using probed_zero [OF assms(3)] assms(4) by (rule py_max_first)
  then show ?thesis
    using assms by (simp add: detect_encryption_in_playlist_chain_def Let_def split: sum.splits)
qed

section \<open>The variant that is fetched\<close>

text \<open>
  C1, as the specification states it, fails: of two variants with the same bandwidth
  and heights 720 and 1080, \<open>resolve_segments_from_m3u8\<close> fetches the first, while
  \<open>choose_variant_best\<close> picks the second.
\<close>

theorem resolve_not_choose_variant_best_counterexample:
  "fst (resolve_segments_from_m3u8 join_h (serve master_equal_bandwidth ''seg0.ts'')
          ''http://h/m.m3u8'' () 30) = [''http://h/m.m3u8'', ''http://h/low.m3u8''] \<and>
   choose_variant_best
     [(1200, Some 720, ''http://h/low.m3u8''), (1200, Some 1080, ''http://h/high.m3u8'')]
     = Inr ''http://h/high.m3u8''"
  by code_simp

text \<open>
  C7. \<open>resolve_segments_from_m3u8\<close> makes at most two requests, the playlist and one
  variant. When the text fetched from the chosen variant has a stream-info line itself,
  the function raises ("Master playlist provided") and follows nothing further.
\<close>

theorem resolve_single_hop:
  "length (fst (resolve_segments_from_m3u8 urljoin http_get m3u8_url headers timeout)) \<le> 2 \<and>
   (http_get 0 m3u8_url headers timeout = Inr top_text \<and>
    is_master (stripped_lines top_text) \<and>
    variants_loop bandwidth_attr Pair urljoin m3u8_url (stripped_lines top_text) [] = Inr variants \<and>
    best_by_bandwidth variants = Inr best_uri \<and>
    http_get 1 best_uri headers timeout = Inr media \<and>
    is_master (stripped_lines media)
    \<longrightarrow> resolve_segments_from_m3u8 urljoin http_get m3u8_url headers timeout
          = ([m3u8_url, best_uri], Inl master_provided))"
proof (intro conjI impI)
  show "length (fst (resolve_segments_from_m3u8 urljoin http_get m3u8_url headers timeout)) \<le> 2"
    by (simp add: resolve_segments_from_m3u8_def Let_def split: sum.splits)
next
  assume "http_get 0 m3u8_url headers timeout = Inr top_text \<and>
    is_master (stripped_lines top_text) \<and>
    variants_loop bandwidth_attr Pair urljoin m3u8_url (stripped_lines top_text) [] = Inr variants \<and>
    best_by_bandwidth variants = Inr best_uri \<and>
    http_get 1 best_uri headers timeout = Inr media \<and>
    is_master (stripped_lines media)"
  then show "resolve_segments_from_m3u8 urljoin http_get m3u8_url headers timeout
          = ([m3u8_url, best_uri], Inl master_provided)"
    by (simp add: resolve_segments_from_m3u8_def parse_m3u8_def Let_def)
qed


theorem resolve_single_hop_witness:
  "resolve_segments_from_m3u8 join_h (serve master_two_bandwidths master_equal_bandwidth)
     ''http://h/m.m3u8'' () 30
     = ([''http://h/m.m3u8'', ''http://h/high.m3u8''], Inl master_provided) \<and>
   length (fst (resolve_segments_from_m3u8 join_h (serve master_two_bandwidths master_equal_bandwidth)
     ''http://h/m.m3u8'' () 30)) \<le> 2"
proof -
  let ?net = "serve master_two_bandwidths master_equal_bandwidth"
  have top: "?net 0 ''http://h/m.m3u8'' () 30 = Inr master_two_bandwidths"
    by (simp add: serve_def)
  have master: "is_master (stripped_lines master_two_bandwidths)"
    by code_simp
  have listed: "variants_loop bandwidth_attr Pair join_h ''http://h/m.m3u8''
                  (stripped_lines master_two_bandwidths) []
                = Inr [(500, ''http://h/low.m3u8''), (1200, ''http://h/high.m3u8'')]"
    by code_simp
  have best: "best_by_bandwidth [(500, ''http://h/low.m3u8''), (1200, ''http://h/high.m3u8'')]
                = Inr ''http://h/high.m3u8''"
    by code_simp
  have media: "?net 1 ''http://h/high.m3u8'' () 30 = Inr master_equal_bandwidth"
    by (simp add: serve_def)
  have nested: "is_master (stripped_lines master_equal_bandwidth)"
    by code_simp
  note inst = resolve_single_hop [of join_h ?net "''http://h/m.m3u8''" "()" 30 master_two_bandwidths
      "[(500, ''http://h/low.m3u8''), (1200, ''http://h/high.m3u8'')]" "''http://h/high.m3u8''"
      master_equal_bandwidth]
  have hyps: "?net 0 ''http://h/m.m3u8'' () 30 = Inr master_two_bandwidths \<and>
    is_master (stripped_lines master_two_bandwidths) \<and>
    variants_loop bandwidth_attr Pair join_h ''http://h/m.m3u8''
      (stripped_lines master_two_bandwidths) []
      = Inr [(500, ''http://h/low.m3u8''), (1200, ''http://h/high.m3u8'')] \<and>
    best_by_bandwidth [(500, ''http://h/low.m3u8''), (1200, ''http://h/high.m3u8'')]
      = Inr ''http://h/high.m3u8'' \<and>
    ?net 1 ''http://h/high.m3u8'' () 30 = Inr master_equal_bandwidth \<and>
    is_master (stripped_lines master_equal_bandwidth)"
    by (intro conjI top master listed best media nested)
  show ?thesis
    by (intro conjI inst [THEN conjunct2, THEN mp, OF hyps] inst [THEN conjunct1])
qed


section \<open>The threshold after the manual download\<close>

lemma enough_segments_eq: "enough_segments n = max 1 ((4 * n) div 5)"
proof -
  have "(8 / 10) * real n = real (4 * n) / real 5"
    by simp
  then have "\<lfloor>(8 / 10) * real n\<rfloor> = int ((4 * n) div 5)"
    by (simp only: floor_divide_of_nat_eq)
  then show ?thesis
    by (simp add: enough_segments_def)
qed

text \<open>
  C2, as the specification states it, fails: with 2 of 3 segments downloaded,
  \<open>succeeded < 0.8 * attempted\<close> holds (2 < 2.4), yet \<open>main\<close> does not call the ffmpeg
  fallback and assembles.
\<close>

theorem finish_manual_escalation_counterexample:
  "real (length (glob_ts two_of_three)) < (8 / 10) * real 3 \<and>
   fst (finish_manual 3 two_of_three True) = [ConcatSegments]"
proof -
  have g: "glob_ts two_of_three = two_of_three"
    by code_simp
  have l: "length two_of_three = 2"
    by (simp add: two_of_three_def)
  show ?thesis
    by (simp add: finish_manual_def Let_def enough_segments_eq g l)
qed

text \<open>
  C2, amended. After the manual download \<open>main\<close> calls the ffmpeg fallback if and only
  if the number of segment files is below \<open>max(1, int(0.8 * attempted))\<close>, the integer
  part of four fifths of the segment count and at least 1. It assembles the segment
  files unless the fallback was called and succeeded. When the fallback is called on a
  non-empty segment list, \<open>succeeded < 0.8 * attempted\<close> holds.
\<close>

theorem finish_manual_escalation:
  "(FfmpegFallback \<in> set (fst (finish_manual n_segments segments_dir ffmpeg_ok))
      \<longleftrightarrow> length (glob_ts segments_dir) < max 1 ((4 * n_segments) div 5)) \<and>
   (ConcatSegments \<in> set (fst (finish_manual n_segments segments_dir ffmpeg_ok))
      \<longleftrightarrow> \<not> (length (glob_ts segments_dir) < max 1 ((4 * n_segments) div 5) \<and> ffmpeg_ok)) \<and>
   (FfmpegFallback \<in> set (fst (finish_manual n_segments segments_dir ffmpeg_ok))
      \<longrightarrow> n_segments = 0 \<or> real (length (glob_ts segments_dir)) < (8 / 10) * real n_segments)"
  by (auto simp: finish_manual_def Let_def enough_segments_eq)

theorem finish_manual_escalation_witness:
  "FfmpegFallback \<in> set (fst (finish_manual 10 two_of_three False)) \<and>
   ConcatSegments \<in> set (fst (finish_manual 10 two_of_three False)) \<and>
   FfmpegFallback \<notin> set (fst (finish_manual 3 two_of_three True))"
proof -
  have g: "glob_ts two_of_three = two_of_three"
    by code_simp
  have l: "length two_of_three = 2"
    by (simp add: two_of_three_def)
  show ?thesis
    using finish_manual_escalation [of 10 two_of_three False] finish_manual_escalation [of 3 two_of_three True]
    by (simp add: g l)
qed

section \<open>Retries\<close>

lemma try_download_loop_again:
  assumes "retriable (http_get n url headers timeout)" "int n < retries"
  shows "try_download_loop http_get url headers timeout retries backoff (n # rest) slept
           = try_download_loop http_get url headers timeout retries backoff rest
               (slept @ [backoff * 2 ^ n])"
proof (cases "http_get n url headers timeout")
  case (Inr data)
  then show ?thesis
    using assms(1) by (simp add: retriable_def)
next
  case (Inl e)
  then show ?thesis
    using assms by (cases e) (simp_all add: retriable_def)
qed

lemma try_download_loop_exhausted:
  assumes "retriable (http_get n url headers timeout)" "retries \<le> int n"
  shows "try_download_loop http_get url headers timeout retries backoff (n # rest) slept
           = ((False, None, status_of (http_get n url headers timeout)), slept)"
proof (cases "http_get n url headers timeout")
  case (Inr data)
  then show ?thesis
    using assms(1) by (simp add: retriable_def)
next
  case (Inl e)
  then show ?thesis
    using assms by (cases e) (simp_all add: retriable_def status_of_def)
qed

lemma try_download_loop_retries:
  assumes "a \<le> k" "int k \<le> retries"
    and "\<forall>i. a \<le> i \<and> i < k \<longrightarrow> retriable (http_get i url headers timeout)"
  shows "try_download_loop http_get url headers timeout retries backoff
           [a..<nat (retries + 1)] slept
         = try_download_loop http_get url headers timeout retries backoff
             [k..<nat (retries + 1)] (slept @ map (\<lambda>i. backoff * 2 ^ i) [a..<k])"
  using assms
proof (induction k rule: dec_induct)
  case base
  show ?case by simp
next
  case (step n)
  have n: "int n < retries"
    using step.prems(1) by simp
  then have "n < nat (retries + 1)"
    by simp
  then have split: "[n..<nat (retries + 1)] = n # [Suc n..<nat (retries + 1)]"
    by (rule upt_conv_Cons)
  have again: "retriable (http_get n url headers timeout)"
    using step.prems(2) step.hyps by simp
  have "try_download_loop http_get url headers timeout retries backoff
           [a..<nat (retries + 1)] slept
         = try_download_loop http_get url headers timeout retries backoff
             [n..<nat (retries + 1)] (slept @ map (\<lambda>i. backoff * 2 ^ i) [a..<n])"
    using step.IH step.prems n by simp
  also have "\<dots> = try_download_loop http_get url headers timeout retries backoff
             [Suc n..<nat (retries + 1)]
             ((slept @ map (\<lambda>i. backoff * 2 ^ i) [a..<n]) @ [backoff * 2 ^ n])"
    unfolding split
    by (rule try_download_loop_again [where http_get = http_get and n = n, OF again n])
  also have "(slept @ map (\<lambda>i. backoff * 2 ^ i) [a..<n]) @ [backoff * 2 ^ n]
               = slept @ map (\<lambda>i. backoff * 2 ^ i) [a..<Suc n]"
    using step.hyps(1) by simp
  finally show ?case .
qed

lemma try_download_reaches:
  assumes "0 \<le> retries" "int k \<le> retries"
    and "\<forall>i<k. retriable (http_get i url headers timeout)"
  shows "try_download http_get url headers timeout retries backoff
         = try_download_loop http_get url headers timeout retries backoff
             (k # [Suc k..<nat (retries + 1)]) (map (\<lambda>i. backoff * 2 ^ i) [0..<k])"
proof -
  have "k < nat (retries + 1)"
    using assms(1,2) by simp
  then have "[k..<nat (retries + 1)] = k # [Suc k..<nat (retries + 1)]"
    by (rule upt_conv_Cons)
  then show ?thesis
    using try_download_loop_retries [of 0 k retries http_get url headers timeout backoff "[]"] assms
    by (simp add: try_download_def)
qed

text \<open>
  C3. For a non-negative \<open>retries\<close> and \<open>backoff\<close>: when attempts \<open>0..k-1\<close> fail with errors that
  may be retried and attempt \<open>k \<le> retries\<close> succeeds or answers 403 or 404,
  \<open>try_download\<close> returns at once with the data, or with the failure and that status,
  having slept \<open>backoff * 2^i\<close> after each failed attempt \<open>i < k\<close> (so not at all when
  \<open>k = 0\<close>). When all \<open>retries + 1\<close> attempts fail with such errors it reports failure
  with the HTTP status of the last attempt, if that was an HTTP error, after the sleeps
  \<open>backoff * 2^i\<close> for \<open>i < retries\<close>. A server answering 500, 500, 200 gives success
  for \<open>retries \<ge> 2\<close> and failure with status 500 for \<open>retries = 1\<close>.
\<close>

theorem try_download_retry_policy:
  assumes nonneg: "0 \<le> retries" and delay: "0 \<le> backoff"
  shows
    "(\<forall>k data. int k \<le> retries \<and> (\<forall>i<k. retriable (http_get i url headers timeout)) \<and>
        http_get k url headers timeout = Inr data
        \<longrightarrow> try_download http_get url headers timeout retries backoff
              = ((True, Some data, None), map (\<lambda>i. backoff * 2 ^ i) [0..<k])) \<and>
     (\<forall>k code. int k \<le> retries \<and> (\<forall>i<k. retriable (http_get i url headers timeout)) \<and>
        http_get k url headers timeout = Inl (HTTPError code) \<and> (code = 403 \<or> code = 404)
        \<longrightarrow> try_download http_get url headers timeout retries backoff
              = ((False, None, Some code), map (\<lambda>i. backoff * 2 ^ i) [0..<k])) \<and>
     ((\<forall>i. int i \<le> retries \<longrightarrow> retriable (http_get i url headers timeout))
        \<longrightarrow> try_download http_get url headers timeout retries backoff
              = ((False, None, status_of (http_get (nat retries) url headers timeout)),
                 map (\<lambda>i. backoff * 2 ^ i) [0..<nat retries])) \<and>
     (http_get 0 url headers timeout = Inl (HTTPError 500) \<and>
      http_get 1 url headers timeout = Inl (HTTPError 500) \<and>
      http_get 2 url headers timeout = Inr data2
        \<longrightarrow> (2 \<le> retries \<longrightarrow>
               try_download http_get url headers timeout retries backoff
                 = ((True, Some data2, None), [backoff, backoff * 2])) \<and>
            (retries = 1 \<longrightarrow>
               try_download http_get url headers timeout retries backoff
                 = ((False, None, Some 500), [backoff])))"
proof (intro conjI allI impI)
  fix k data
  assume h: "int k \<le> retries \<and> (\<forall>i<k. retriable (http_get i url headers timeout)) \<and>
        http_get k url headers timeout = Inr data"
  then show "try_download http_get url headers timeout retries backoff
              = ((True, Some data, None), map (\<lambda>i. backoff * 2 ^ i) [0..<k])"
    using try_download_reaches [of retries k http_get url headers timeout backoff] nonneg
    by simp
next
  fix k code
  assume h: "int k \<le> retries \<and> (\<forall>i<k. retriable (http_get i url headers timeout)) \<and>
        http_get k url headers timeout = Inl (HTTPError code) \<and> (code = 403 \<or> code = 404)"
  then show "try_download http_get url headers timeout retries backoff
              = ((False, None, Some code), map (\<lambda>i. backoff * 2 ^ i) [0..<k])"
    using try_download_reaches [of retries k http_get url headers timeout backoff] nonneg
    by auto
next
  assume h: "\<forall>i. int i \<le> retries \<longrightarrow> retriable (http_get i url headers timeout)"
  have last: "retriable (http_get (nat retries) url headers timeout)"
    using h nonneg by simp
  have "\<forall>i<nat retries. retriable (http_get i url headers timeout)"
    using h by simp
  then have "try_download http_get url headers timeout retries backoff
         = try_download_loop http_get url headers timeout retries backoff
             (nat retries # [Suc (nat retries)..<nat (retries + 1)])
             (map (\<lambda>i. backoff * 2 ^ i) [0..<nat retries])"
    using try_download_reaches [of retries "nat retries" http_get url headers timeout backoff] nonneg
    by simp
  also have "\<dots> = ((False, None, status_of (http_get (nat retries) url headers timeout)),
                 map (\<lambda>i. backoff * 2 ^ i) [0..<nat retries])"
    using nonneg
    by (intro try_download_loop_exhausted [where http_get = http_get and n = "nat retries", OF last])
       simp
  finally show "try_download http_get url headers timeout retries backoff
              = ((False, None, status_of (http_get (nat retries) url headers timeout)),
                 map (\<lambda>i. backoff * 2 ^ i) [0..<nat retries])" .
next
  assume h: "http_get 0 url headers timeout = Inl (HTTPError 500) \<and>
      http_get 1 url headers timeout = Inl (HTTPError 500) \<and>
      http_get 2 url headers timeout = Inr data2"
  assume r: "2 \<le> retries"
  have "\<forall>i<2. retriable (http_get i url headers timeout)"
    using h by (auto simp: retriable_def less_Suc_eq numeral_2_eq_2)
  then have "try_download http_get url headers timeout retries backoff
         = try_download_loop http_get url headers timeout retries backoff
             (2 # [Suc 2..<nat (retries + 1)]) (map (\<lambda>i. backoff * 2 ^ i) [0..<2])"
    using try_download_reaches [of retries 2 http_get url headers timeout backoff] r
    by simp
  also have "map (\<lambda>i. backoff * 2 ^ i) [0..<2] = [backoff, backoff * 2]"
    by (simp add: numeral_2_eq_2)
  finally show "try_download http_get url headers timeout retries backoff
                 = ((True, Some data2, None), [backoff, backoff * 2])"
    using h by simp
next
  assume h: "http_get 0 url headers timeout = Inl (HTTPError 500) \<and>
      http_get 1 url headers timeout = Inl (HTTPError 500) \<and>
      http_get 2 url headers timeout = Inr data2"
  assume r: "retries = 1"
  have "[0..<nat (retries + 1)] = [0, 1]"
    using r by (simp add: numeral_2_eq_2)
  then show "try_download http_get url headers timeout retries backoff
                 = ((False, None, Some 500), [backoff])"
    using h r by (simp add: try_download_def)
qed

theorem try_download_retry_policy_witness:
  "try_download flaky ''http://h/seg0.ts'' () 30 3 (1 / 2)
     = ((True, Some ''data'', None), [1 / 2, 1]) \<and>
   try_download flaky ''http://h/seg0.ts'' () 30 1 (1 / 2)
     = ((False, None, Some 500), [1 / 2])"
proof -
  have h: "flaky 0 ''http://h/seg0.ts'' () 30 = Inl (HTTPError 500) \<and>
           flaky 1 ''http://h/seg0.ts'' () 30 = Inl (HTTPError 500) \<and>
           flaky 2 ''http://h/seg0.ts'' () 30 = Inr ''data''"
    by (simp add: flaky_def)
  have three: "(0 :: int) \<le> 3" and one: "(0 :: int) \<le> 1" and half: "(0 :: real) \<le> 1 / 2"
    by simp_all
  note a = try_download_retry_policy [where http_get = flaky and url = "''http://h/seg0.ts''" and headers = "()"
      and timeout = 30 and backoff = "1 / 2" and ?data2.0 = "''data''", OF three half]
  note b = try_download_retry_policy [where http_get = flaky and url = "''http://h/seg0.ts''" and headers = "()"
      and timeout = 30 and backoff = "1 / 2" and ?data2.0 = "''data''", OF one half]
  have "try_download flaky ''http://h/seg0.ts'' () 30 3 (1 / 2)
     = ((True, Some ''data'', None), [1 / 2, 1 / 2 * 2])"
    using a h by simp
  moreover have "try_download flaky ''http://h/seg0.ts'' () 30 1 (1 / 2)
     = ((False, None, Some 500), [1 / 2])"
    using b h by simp
  ultimately show ?thesis
    by simp
qed

section \<open>Segment names and assembly\<close>

lemma snoc_less:
  "length xs = length ys \<Longrightarrow>
     (xs @ [a] < ys @ [b]) \<longleftrightarrow> (xs < ys \<or> xs = ys \<and> a < (b :: 'a :: linorder))"
  by (induction xs ys rule: list_induct2) auto

lemma append_same_less:
  "length xs = length ys \<Longrightarrow> (xs @ s < ys @ s) \<longleftrightarrow> xs < (ys :: 'a :: linorder list)"
  by (induction xs ys rule: list_induct2) auto

lemma digit_char_less: "a < b \<Longrightarrow> b < 10 \<Longrightarrow> digit_char a < digit_char b"
  by (simp add: digit_char_def less_char_def)

lemma digit_char_zero: "digit_char 0 = CHR ''0''"
  by code_simp

lemma length_fixed_digits: "length (fixed_digits k n) = k"
  by (induction k arbitrary: n) auto

lemma fixed_digits_zero: "fixed_digits k 0 = replicate k (CHR ''0'')"
  by (induction k) (auto simp: digit_char_zero replicate_append_same)

lemma fixed_digits_less:
  "n < m \<Longrightarrow> m < 10 ^ k \<Longrightarrow> fixed_digits k n < fixed_digits k m"
proof (induction k arbitrary: n m)
  case 0
  then show ?case by simp
next
  case (Suc k)
  have le: "n div 10 \<le> m div 10"
    using Suc.prems(1) by (simp add: div_le_mono)
  have bound: "m div 10 < 10 ^ k"
    using Suc.prems(2) by (simp add: less_mult_imp_div_less mult.commute)
  show ?case
  proof (cases "n div 10 < m div 10")
    case True
    then have "fixed_digits k (n div 10) < fixed_digits k (m div 10)"
      using bound by (rule Suc.IH)
    then show ?thesis
      by (simp add: snoc_less length_fixed_digits)
  next
    case False
    then have eq: "n div 10 = m div 10"
      using le by simp
    then have "n mod 10 < m mod 10"
      using Suc.prems(1) div_mult_mod_eq [of n 10] div_mult_mod_eq [of m 10] by linarith
    then have "digit_char (n mod 10) < digit_char (m mod 10)"
      by (rule digit_char_less) simp
    then show ?thesis
      by (simp add: snoc_less length_fixed_digits eq)
  qed
qed

lemma length_decimal: "0 < k \<Longrightarrow> n < 10 ^ k \<Longrightarrow> length (decimal n) \<le> k"
proof (induction k arbitrary: n)
  case 0
  then show ?case by simp
next
  case (Suc k)
  show ?case
  proof (cases "n < 10")
    case True
    then show ?thesis
      by (simp add: decimal.simps [of n])
  next
    case False
    then have "0 < k"
      using Suc.prems(2) by (cases k) auto
    moreover have "n div 10 < 10 ^ k"
      using Suc.prems(2) by (simp add: less_mult_imp_div_less mult.commute)
    ultimately have "length (decimal (n div 10)) \<le> k"
      by (rule Suc.IH)
    then show ?thesis
      using False by (simp add: decimal.simps [of n])
  qed
qed

lemma zero_pad_decimal: "0 < k \<Longrightarrow> n < 10 ^ k \<Longrightarrow> zero_pad k (decimal n) = fixed_digits k n"
proof (induction k arbitrary: n)
  case 0
  then show ?case by simp
next
  case (Suc k)
  show ?case
  proof (cases "n < 10")
    case True
    then show ?thesis
      by (simp add: decimal.simps [of n] zero_pad_def fixed_digits_zero)
  next
    case False
    then have k: "0 < k"
      using Suc.prems(2) by (cases k) auto
    have b: "n div 10 < 10 ^ k"
      using Suc.prems(2) by (simp add: less_mult_imp_div_less mult.commute)
    have "length (decimal (n div 10)) \<le> k"
      using k b by (rule length_decimal)
    then have "zero_pad (Suc k) (decimal (n div 10) @ [digit_char (n mod 10)])
                 = zero_pad k (decimal (n div 10)) @ [digit_char (n mod 10)]"
      by (simp add: zero_pad_def)
    then show ?thesis
      using False Suc.IH [OF k b] by (simp add: decimal.simps [of n])
  qed
qed

lemma segment_name_fixed: "i < 1000000 \<Longrightarrow> segment_name i = fixed_digits 6 i @ ''.ts''"
  using zero_pad_decimal [of 6 i] by (simp add: segment_name_def)

lemma segment_name_less:
  assumes "i < j" "j < 1000000"
  shows "segment_name i < segment_name j"
proof -
  have "fixed_digits 6 i < fixed_digits 6 j"
    using assms by (intro fixed_digits_less) simp_all
  then have "fixed_digits 6 i @ ''.ts'' < fixed_digits 6 j @ ''.ts''"
    by (simp only: append_same_less length_fixed_digits)
  then show ?thesis
    using assms by (simp only: segment_name_fixed)
qed

lemma segment_name_less_iff:
  assumes "i < 1000000" "j < 1000000"
  shows "segment_name i < segment_name j \<longleftrightarrow> i < j"
proof
  assume "i < j"
  then show "segment_name i < segment_name j"
    using assms(2) by (rule segment_name_less)
next
  assume l: "segment_name i < segment_name j"
  show "i < j"
  proof (rule ccontr)
    assume "\<not> i < j"
    then consider "i = j" | "j < i" by fastforce
    then show False
    proof cases
      case 1
      then show False using l by simp
    next
      case 2
      then have "segment_name j < segment_name i"
        using assms(1) by (rule segment_name_less)
      then show False using l by simp
    qed
  qed
qed

lemma segment_name_le_iff:
  assumes "i < 1000000" "j < 1000000"
  shows "segment_name i \<le> segment_name j \<longleftrightarrow> i \<le> j"
proof -
  have "\<not> segment_name j < segment_name i \<longleftrightarrow> \<not> j < i"
    using segment_name_less_iff [OF assms(2) assms(1)] by (rule arg_cong)
  then show ?thesis
    unfolding not_less .
qed

lemma segment_name_inj:
  assumes "i < 1000000" "j < 1000000" "segment_name i = segment_name j"
  shows "i = j"
  using segment_name_le_iff [OF assms(1,2)] segment_name_le_iff [OF assms(2,1)] assms(3)
  by simp

lemma segment_name_ts: "endswith (segment_name i) ''.ts''"
  by (simp add: segment_name_def endswith_def)

lemma insort_key_map_mono:
  assumes "\<forall>y \<in> set ys. (f (g x) \<le> f (g y)) = (x \<le> y)"
  shows "insort_key f (g x) (map g ys) = map g (insort_key (\<lambda>x. x) x ys)"
  using assms by (induction ys) auto

lemma sort_key_map_mono:
  assumes "\<forall>x \<in> set xs. \<forall>y \<in> set xs. (f (g x) \<le> f (g y)) = (x \<le> y)"
  shows "sort_key f (map g xs) = map g (sort_key (\<lambda>x. x) xs)"
  using assms
proof (induction xs)
  case Nil
  show ?case by simp
next
  case (Cons x xs)
  have "sort_key f (map g xs) = map g (sort_key (\<lambda>x. x) xs)"
    using Cons.prems by (intro Cons.IH) simp
  moreover have "insort_key f (g x) (map g (sort_key (\<lambda>x. x) xs))
                   = map g (insort_key (\<lambda>x. x) x (sort_key (\<lambda>x. x) xs))"
    using Cons.prems by (intro insort_key_map_mono) simp
  ultimately show ?case
    by simp
qed

lemma foldl_append_snd: "foldl (\<lambda>out p. out @ snd p) acc ps = acc @ concat (map snd ps)"
  by (induction ps arbitrary: acc) auto

lemma concat_segments_to_ts_eq:
  "concat_segments_to_ts segments_dir =
     (if glob_ts segments_dir = [] then Inl no_segment_files
      else Inr (concat (map snd (sort_key fst (glob_ts segments_dir)))))"
proof -
  have "sort_key fst (glob_ts segments_dir) = [] \<longleftrightarrow> glob_ts segments_dir = []"
    using length_sort [of fst "glob_ts segments_dir"] by (metis length_0_conv)
  then show ?thesis
    by (simp add: concat_segments_to_ts_def Let_def foldl_append_snd)
qed

lemma glob_ts_segments:
  "glob_ts (map (\<lambda>i. (segment_name i, data i)) indices) = map (\<lambda>i. (segment_name i, data i)) indices"
  by (simp add: glob_ts_def segment_name_ts)

lemma sort_segments:
  assumes "\<forall>i \<in> set indices. i < 1000000"
  shows "sort_key fst (map (\<lambda>i. (segment_name i, data i)) indices)
           = map (\<lambda>i. (segment_name i, data i)) (sort_key (\<lambda>x. x) indices)"
  using assms by (intro sort_key_map_mono) (simp add: segment_name_le_iff)

text \<open>
  C9. \<open>concat_segments_to_ts\<close> appends the \<open>.ts\<close> files in the order of their names.
  For indices below \<open>10^6\<close> the order of the six-digit names is the order of the
  indices, so a directory of such files, listed in any order, is concatenated in index
  order; the files 000000, 000002, 000001 are concatenated as 000000, 000001, 000002.
  Without any \<open>.ts\<close> file it raises "No segment files to merge".
\<close>

theorem concat_segments_name_order:
  "(indices \<noteq> [] \<and> (\<forall>i \<in> set indices. i < 1000000) \<longrightarrow>
      concat_segments_to_ts (map (\<lambda>i. (segment_name i, data i)) indices)
        = Inr (concat (map data (sort_key (\<lambda>x. x) indices)))) \<and>
   (i < 1000000 \<and> j < 1000000 \<longrightarrow> (segment_name i < segment_name j \<longleftrightarrow> i < j)) \<and>
   concat_segments_to_ts [(''000000.ts'', a), (''000002.ts'', c), (''000001.ts'', b)]
     = Inr (a @ b @ c) \<and>
   (glob_ts segments_dir = [] \<longrightarrow> concat_segments_to_ts segments_dir = Inl no_segment_files) \<and>
   (glob_ts segments_dir \<noteq> [] \<longrightarrow>
      (\<exists>parts. concat_segments_to_ts segments_dir = Inr (concat (map snd parts)) \<and>
         sorted (map fst parts) \<and> set parts = set (glob_ts segments_dir) \<and>
         length parts = length (glob_ts segments_dir)))"
proof (intro conjI impI)
  assume h: "indices \<noteq> [] \<and> (\<forall>i \<in> set indices. i < 1000000)"
  then have "sort_key fst (map (\<lambda>i. (segment_name i, data i)) indices)
           = map (\<lambda>i. (segment_name i, data i)) (sort_key (\<lambda>x. x) indices)"
    by (intro sort_segments) simp
  then show "concat_segments_to_ts (map (\<lambda>i. (segment_name i, data i)) indices)
        = Inr (concat (map data (sort_key (\<lambda>x. x) indices)))"
    using h by (simp add: concat_segments_to_ts_eq glob_ts_segments comp_def)
next
  assume "i < 1000000 \<and> j < 1000000"
  then show "segment_name i < segment_name j \<longleftrightarrow> i < j"
    by (simp add: segment_name_less_iff)
next
  have "glob_ts [(''000000.ts'', a), (''000002.ts'', c), (''000001.ts'', b)]
          = [(''000000.ts'', a), (''000002.ts'', c), (''000001.ts'', b)]"
    by (simp add: glob_ts_def endswith_def)
  moreover have "sort_key fst [(''000000.ts'', a), (''000002.ts'', c), (''000001.ts'', b)]
          = [(''000000.ts'', a), (''000001.ts'', b), (''000002.ts'', c)]"
    by simp
  ultimately show "concat_segments_to_ts [(''000000.ts'', a), (''000002.ts'', c), (''000001.ts'', b)]
     = Inr (a @ b @ c)"
    by (simp only: concat_segments_to_ts_eq) simp
next
  assume "glob_ts segments_dir = []"
  then show "concat_segments_to_ts segments_dir = Inl no_segment_files"
    by (simp add: concat_segments_to_ts_eq)
next
  assume "glob_ts segments_dir \<noteq> []"
  then have "concat_segments_to_ts segments_dir
               = Inr (concat (map snd (sort_key fst (glob_ts segments_dir)))) \<and>
             sorted (map fst (sort_key fst (glob_ts segments_dir))) \<and>
             set (sort_key fst (glob_ts segments_dir)) = set (glob_ts segments_dir) \<and>
             length (sort_key fst (glob_ts segments_dir)) = length (glob_ts segments_dir)"
    by (simp add: concat_segments_to_ts_eq)
  then show "\<exists>parts. concat_segments_to_ts segments_dir = Inr (concat (map snd parts)) \<and>
         sorted (map fst parts) \<and> set parts = set (glob_ts segments_dir) \<and>
         length parts = length (glob_ts segments_dir)"
    by (rule exI)
qed

theorem concat_segments_name_order_witness:
  "concat_segments_to_ts (map (\<lambda>i. (segment_name i, [''aa'', ''bb'', ''cc''] ! i)) [0, 2, 1])
     = Inr ''aabbcc'' \<and>
   concat_segments_to_ts [(''notes.txt'', ''x'')] = Inl no_segment_files"
proof -
  note inst = concat_segments_name_order [where indices = "[0, 2, 1]" and data = "\<lambda>i. [''aa'', ''bb'', ''cc''] ! i"
      and segments_dir = "[(''notes.txt'', ''x'')]"]
  have h: "[0, 2, 1 :: nat] \<noteq> [] \<and> (\<forall>i \<in> set [0, 2, 1 :: nat]. i < 1000000)"
    by simp
  have e: "glob_ts [(''notes.txt'', ''x'')] = []"
    by (simp add: glob_ts_def endswith_def)
  have "concat_segments_to_ts (map (\<lambda>i. (segment_name i, [''aa'', ''bb'', ''cc''] ! i)) [0, 2, 1])
     = Inr (concat (map (\<lambda>i. [''aa'', ''bb'', ''cc''] ! i) (sort_key (\<lambda>x. x) [0, 2, 1 :: nat])))"
    by (rule inst [THEN conjunct1, THEN mp, OF h])
  then have "concat_segments_to_ts (map (\<lambda>i. (segment_name i, [''aa'', ''bb'', ''cc''] ! i)) [0, 2, 1])
     = Inr ''aabbcc''"
    by simp
  moreover have "concat_segments_to_ts [(''notes.txt'', ''x'')] = Inl no_segment_files"
    by (rule inst [THEN conjunct2, THEN conjunct2, THEN conjunct2, THEN conjunct1, THEN mp, OF e])
  ultimately show ?thesis
    by (intro conjI)
qed

section \<open>A run with missing segments\<close>

lemma write_atomic_eq: "write_atomic d p x = (d(p \<mapsto> x))(p @ ''.part'' := None)"
  by (rule ext) (simp add: write_atomic_def Let_def)

lemma part_not_segment: "segment_name j \<noteq> segment_name i @ ''.part''"
proof
  assume "segment_name j = segment_name i @ ''.part''"
  then have "last (segment_name j) = last (segment_name i @ ''.part'')"
    by (rule arg_cong)
  then show False
    by (simp add: segment_name_def)
qed

lemma try_download_first_ok:
  assumes "0 \<le> retries" "http_get 0 url headers timeout = Inr d"
  shows "try_download http_get url headers timeout retries backoff = ((True, Some d, None), [])"
  using try_download_reaches [of retries 0 http_get url headers timeout backoff] assms by simp

lemma try_download_first_404:
  assumes "0 \<le> retries" "http_get 0 url headers timeout = Inl (HTTPError 404)"
  shows "try_download http_get url headers timeout retries backoff = ((False, None, Some 404), [])"
  using try_download_reaches [of retries 0 http_get url headers timeout backoff] assms by simp

lemma task_scenario:
  assumes "0 \<le> retries" "always_answers http_of headers timeout good payload e"
  shows "task http_of headers timeout retries st e =
           (if good (fst e)
            then st\<lparr>dir := write_atomic (dir st) (segment_name (fst e)) (payload (fst e)),
                    done_count := done_count st + 1,
                    bytes_count := bytes_count st + length (payload (fst e))\<rparr>
            else st\<lparr>failures := failures st @ [(fst e, Some 404)]\<rparr>)"
proof (cases "good (fst e)")
  case True
  then have "http_of (fst e) 0 (snd e) headers timeout = Inr (payload (fst e))"
    using assms(2) by (simp add: always_answers_def)
  from try_download_first_ok [where http_get = "http_of (fst e)", OF assms(1) this] show ?thesis
    using True by (simp add: task_def Let_def)
next
  case False
  then have "http_of (fst e) 0 (snd e) headers timeout = Inl (HTTPError 404)"
    using assms(2) by (simp add: always_answers_def)
  from try_download_first_404 [where http_get = "http_of (fst e)", OF assms(1) this] show ?thesis
    using False by (simp add: task_def Let_def)
qed

lemma run_counts:
  assumes "0 \<le> retries" "\<forall>e \<in> set es. always_answers http_of headers timeout good payload e"
  shows "done_count (foldl (task http_of headers timeout retries) st es)
           = done_count st + length (filter (\<lambda>e. good (fst e)) es) \<and>
         failures (foldl (task http_of headers timeout retries) st es)
           = failures st @ map (\<lambda>e. (fst e, Some 404)) (filter (\<lambda>e. \<not> good (fst e)) es)"
  using assms(2)
proof (induction es arbitrary: st)
  case Nil
  show ?case by simp
next
  case (Cons e es)
  have e: "always_answers http_of headers timeout good payload e"
    using Cons.prems by simp
  have rest: "\<forall>e \<in> set es. always_answers http_of headers timeout good payload e"
    using Cons.prems by simp
  show ?case
    using Cons.IH [OF rest, of "task http_of headers timeout retries st e"]
    by (simp add: task_scenario [OF assms(1) e])
qed

lemma run_dom:
  assumes "0 \<le> retries" "\<forall>e \<in> set es. always_answers http_of headers timeout good payload e"
    and "dom (dir st) \<subseteq> range segment_name"
  shows "dom (dir (foldl (task http_of headers timeout retries) st es))
           = dom (dir st) \<union> segment_name ` {i. good i \<and> i \<in> fst ` set es}"
  using assms(2,3)
proof (induction es arbitrary: st)
  case Nil
  show ?case by simp
next
  case (Cons e es)
  have e: "always_answers http_of headers timeout good payload e"
    using Cons.prems by simp
  have rest: "\<forall>e \<in> set es. always_answers http_of headers timeout good payload e"
    using Cons.prems by simp
  let ?st = "task http_of headers timeout retries st e"
  have d: "dom (dir ?st) = (if good (fst e) then insert (segment_name (fst e)) (dom (dir st))
                            else dom (dir st))"
  proof (cases "good (fst e)")
    case True
    have "segment_name (fst e) @ ''.part'' \<notin> dom (dir st)"
    proof
      assume "segment_name (fst e) @ ''.part'' \<in> dom (dir st)"
      then have "segment_name (fst e) @ ''.part'' \<in> range segment_name"
        using Cons.prems(2) by (rule subsetD [rotated])
      then obtain j where "segment_name (fst e) @ ''.part'' = segment_name j" ..
      then show False
        using part_not_segment [of j "fst e"] by simp
    qed
    moreover have "segment_name (fst e) @ ''.part'' \<noteq> segment_name (fst e)"
      by simp
    ultimately show ?thesis
      using True by (auto simp: task_scenario [OF assms(1) e] write_atomic_eq)
  next
    case False
    then show ?thesis
      by (simp add: task_scenario [OF assms(1) e])
  qed
  then have "dom (dir ?st) \<subseteq> range segment_name"
    using Cons.prems(2) by (auto split: if_splits)
  from Cons.IH [OF rest this] show ?case
    unfolding d by (auto split: if_splits)
qed

lemma run_content:
  assumes "0 \<le> retries" "\<forall>e \<in> set es. always_answers http_of headers timeout good payload e"
    and "\<forall>e \<in> set es. fst e < 1000000" "i < 1000000" "good i"
    and "i \<in> fst ` set es \<or> dir st (segment_name i) = Some (payload i)"
  shows "dir (foldl (task http_of headers timeout retries) st es) (segment_name i)
           = Some (payload i)"
  using assms(2,3,6)
proof (induction es arbitrary: st)
  case Nil
  then show ?case by simp
next
  case (Cons e es)
  have e: "always_answers http_of headers timeout good payload e"
    using Cons.prems by simp
  have rest: "\<forall>e \<in> set es. always_answers http_of headers timeout good payload e"
    "\<forall>e \<in> set es. fst e < 1000000"
    using Cons.prems by simp_all
  let ?st = "task http_of headers timeout retries st e"
  have "i \<in> fst ` set es \<or> dir ?st (segment_name i) = Some (payload i)"
  proof (cases "i \<in> fst ` set es")
    case True
    then show ?thesis by simp
  next
    case False
    show ?thesis
    proof (cases "fst e = i")
      case True
      then show ?thesis
        using assms(5) by (simp add: task_scenario [OF assms(1) e] write_atomic_eq)
    next
      case other: False
      then have kept: "dir st (segment_name i) = Some (payload i)"
        using Cons.prems(3) False by auto
      have "fst e < 1000000"
        using Cons.prems(2) by simp
      then have "segment_name (fst e) \<noteq> segment_name i"
        using other assms(4) segment_name_inj by blast
      then show ?thesis
        using kept part_not_segment [of i "fst e"]
        by (simp add: task_scenario [OF assms(1) e] write_atomic_eq)
    qed
  qed
  from Cons.IH [OF rest this] show ?case
    by simp
qed

lemma segment_names_0_4:
  "segment_name ` {i. i < 5 \<and> i \<in> {0..<10}}
     = {''000000.ts'', ''000001.ts'', ''000002.ts'', ''000003.ts'', ''000004.ts''}"
proof -
  have "{i :: nat. i < 5 \<and> i \<in> {0..<10}} = {0, 1, 2, 3, 4}"
    by auto
  moreover have "segment_name 0 = ''000000.ts''" "segment_name 1 = ''000001.ts''"
    "segment_name 2 = ''000002.ts''" "segment_name 3 = ''000003.ts''"
    "segment_name 4 = ''000004.ts''"
    by code_simp+
  ultimately show ?thesis
    by simp
qed

lemma rearranged_enumerate:
  assumes "length (urls :: string list) = 10" "distinct order" "set order = set (enumerate 0 urls)"
  shows "fst ` set order = {0..<10}"
    and "length order = 10"
    and "length (filter (\<lambda>e. fst e < 5) order) = 5"
    and "length (filter (\<lambda>e. \<not> fst e < 5) order) = 5"
proof -
  have "set (map fst (enumerate 0 urls)) = {0..<10}"
    using assms(1) by simp
  then have "fst ` set (enumerate 0 urls) = {0..<10}"
    by (simp only: set_map)
  then show "fst ` set order = {0..<10}"
    unfolding assms(3) .
  have "length order = card (set order)"
    using assms(2) by (simp add: distinct_card)
  also have "\<dots> = length (enumerate 0 urls)"
    unfolding assms(3) by (simp add: distinct_card del: length_enumerate)
  finally show "length order = 10"
    using assms(1) by simp
  have count: "length (filter P order) = length (filter (\<lambda>i. P (i, urls ! i)) [0..<10])"
    for P :: "nat \<times> string \<Rightarrow> bool"
  proof -
    have "length (filter P order) = card ({x. P x} \<inter> set order)"
      using assms(2) by (rule distinct_length_filter)
    also have "\<dots> = length (filter P (enumerate 0 urls))"
      unfolding assms(3) by (rule distinct_length_filter [symmetric]) simp
    also have "enumerate 0 urls = map (\<lambda>i. (i, urls ! i)) [0..<10]"
      using assms(1) by (intro nth_equalityI) (simp_all add: nth_enumerate_eq)
    finally show ?thesis
      by (simp add: comp_def)
  qed
  have "length (filter (\<lambda>i :: nat. i < 5) [0..<10]) = 5"
    by code_simp
  then show "length (filter (\<lambda>e. fst e < 5) order) = 5"
    by (simp add: count)
  have "length (filter (\<lambda>i :: nat. \<not> i < 5) [0..<10]) = 5"
    by code_simp
  then show "length (filter (\<lambda>e. \<not> fst e < 5) order) = 5"
    by (simp add: count)
qed

text \<open>
  C8. Ten segments, of which 0 to 4 always succeed and 5 to 9 always answer 404, with a
  non-negative retry count and a pool of at least one worker: in whatever order the
  tasks complete, the run goes through all ten, counts 5 done, reports the five
  failures with code 404, and leaves exactly the files \<open>000000.ts\<close> to \<open>000004.ts\<close>
  in a directory that was empty, each with its segment's content.
\<close>

theorem retriever_half_unavailable:
  assumes "length urls = 10"
    and "distinct order" and "set order = set (enumerate 0 urls)"
    and "0 \<le> retries" and "0 < concurrency"
    and "\<forall>e \<in> set order. always_answers http_of headers timeout (\<lambda>i. i < 5) payload e"
  shows "\<exists>final.
      download_segments_concurrent http_of order headers timeout retries Map.empty concurrency
        = Inr final \<and>
      length order = 10 \<and> done_count final = 5 \<and>
      dom (dir final)
        = {''000000.ts'', ''000001.ts'', ''000002.ts'', ''000003.ts'', ''000004.ts''} \<and>
      (\<forall>i<5. dir final (segment_name i) = Some (payload i)) \<and>
      length (failures final) = 5 \<and>
      set (failures final)
        = {(5, Some 404), (6, Some 404), (7, Some 404), (8, Some 404), (9, Some 404)}"
proof -
  let ?st = "\<lparr>dir = Map.empty, done_count = 0, bytes_count = 0, failures = []\<rparr>"
  define final where "final = foldl (task http_of headers timeout retries) ?st order"
  note perm = rearranged_enumerate [OF assms(1,2,3)]
  have run: "download_segments_concurrent http_of order headers timeout retries Map.empty
               concurrency = Inr final"
    using assms(5) by (simp add: download_segments_concurrent_def final_def)
  note counts = run_counts [OF assms(4,6), of ?st]
  have done5: "done_count final = 5"
    using counts perm(3) by (simp add: final_def)
  have fails: "failures final = map (\<lambda>e. (fst e, Some 404)) (filter (\<lambda>e. \<not> fst e < 5) order)"
    using counts by (simp add: final_def)
  have fail5: "length (failures final) = 5"
    using perm(4) by (simp add: fails)
  have "set (failures final) = (\<lambda>i. (i, Some 404)) ` {i \<in> fst ` set order. \<not> i < 5}"
    unfolding fails by (auto simp: image_iff)
  also have "{i \<in> fst ` set order. \<not> i < 5} = {5, 6, 7, 8, 9 :: nat}"
    unfolding perm(1) by auto
  finally have failset: "set (failures final)
        = {(5, Some 404), (6, Some 404), (7, Some 404), (8, Some 404), (9, Some 404)}"
    by simp
  have "dom (dir final) = dom (dir ?st) \<union> segment_name ` {i. i < 5 \<and> i \<in> fst ` set order}"
    unfolding final_def by (rule run_dom [OF assms(4,6)]) simp
  then have files: "dom (dir final)
        = {''000000.ts'', ''000001.ts'', ''000002.ts'', ''000003.ts'', ''000004.ts''}"
    unfolding perm(1) segment_names_0_4 by simp
  have small: "\<forall>e \<in> set order. fst e < 1000000"
  proof
    fix e
    assume "e \<in> set order"
    then have "fst e \<in> fst ` set order"
      by (rule imageI)
    then show "fst e < 1000000"
      unfolding perm(1) by simp
  qed
  have content: "\<forall>i<5. dir final (segment_name i) = Some (payload i)"
  proof (intro allI impI)
    fix i :: nat
    assume i: "i < 5"
    then have "i \<in> fst ` set order"
      unfolding perm(1) by simp
    then have "i \<in> fst ` set order \<or> dir ?st (segment_name i) = Some (payload i)"
      by (rule disjI1)
    from run_content [OF assms(4,6) small _ i this]
    show "dir final (segment_name i) = Some (payload i)"
      using i by (simp add: final_def)
  qed
  note all = conjI [OF run conjI [OF perm(2) conjI [OF done5 conjI [OF files
    conjI [OF content conjI [OF fail5 failset]]]]]]
  show ?thesis
    by (rule exI [of _ final]) (rule all)
qed

theorem retriever_half_unavailable_witness:
  "length ten_urls = 10 \<and>
   distinct (rev (enumerate 0 ten_urls)) \<and>
   set (rev (enumerate 0 ten_urls)) = set (enumerate 0 ten_urls) \<and>
   (\<exists>final.
      download_segments_concurrent half_404 (rev (enumerate 0 ten_urls)) () 30 3 Map.empty 8
        = Inr final \<and>
      length (rev (enumerate 0 ten_urls)) = 10 \<and> done_count final = 5 \<and>
      dom (dir final)
        = {''000000.ts'', ''000001.ts'', ''000002.ts'', ''000003.ts'', ''000004.ts''} \<and>
      (\<forall>i<5. dir final (segment_name i) = Some ''data'') \<and>
      length (failures final) = 5 \<and>
      set (failures final)
        = {(5, Some 404), (6, Some 404), (7, Some 404), (8, Some 404), (9, Some 404)})"
proof -
  have len: "length ten_urls = 10"
    by (simp add: ten_urls_def)
  have d: "distinct (rev (enumerate 0 ten_urls))"
    by simp
  have s: "set (rev (enumerate 0 ten_urls)) = set (enumerate 0 ten_urls)"
    by simp
  have r: "(0 :: int) \<le> 3" and c: "(0 :: int) < 8"
    by simp_all
  have a: "\<forall>e \<in> set (rev (enumerate 0 ten_urls)).
             always_answers half_404 () 30 (\<lambda>i. i < 5) (\<lambda>i. ''data'') e"
    by (simp add: always_answers_def half_404_def)
  show ?thesis
    by (intro conjI len d s
          retriever_half_unavailable [where payload = "\<lambda>i. ''data''", OF len d s r c a])
qed

end
